theory Spec2Isabelle
  imports Complex_Main "HOL-Library.Word"
begin

unbundle bit_operations_syntax

section \<open>Go values used by the program\<close>

subsection \<open>float64 arithmetic on finite values\<close>

text \<open>
  A finite float64 is the real number it denotes. An arithmetic operation of the program is
  the exact operation followed by rounding to the nearest float64, ties to the even
  significand (IEEE 754 binary64: 53 significant bits, exponents from \<open>-1022\<close> to \<open>1023\<close>,
  gradual underflow below \<open>2 powi -1022\<close>). Infinities and NaN are not values of this model;
  the one place where a result could leave the finite range is followed by a conversion to
  int, which is checked there.
\<close>

definition round_half_even :: "real \<Rightarrow> int" where
  "round_half_even x =
     (let f = \<lfloor>x\<rfloor>; d = x - of_int f
      in if d < 1 / 2 then f
         else if 1 / 2 < d then f + 1
         else if even f then f else f + 1)"

text \<open>\<open>expo_search n x\<close> is the largest \<open>e\<close> in \<open>-1021 .. n - 1022\<close> with \<open>2 powi e \<le> x\<close>,
  and \<open>-1022\<close> when there is none: the binade of \<open>x\<close>.\<close>

fun expo_search :: "nat \<Rightarrow> real \<Rightarrow> int" where
  "expo_search 0 x = - 1022"
| "expo_search (Suc n) x =
     (if 2 powi (int n - 1021) \<le> x then int n - 1021 else expo_search n x)"

definition f64_expo :: "real \<Rightarrow> int" where
  "f64_expo x = expo_search 2045 \<bar>x\<bar>"

definition f64_ulp :: "real \<Rightarrow> real" where
  "f64_ulp x = 2 powi (f64_expo x - 52)"

definition f64_round :: "real \<Rightarrow> real" where
  "f64_round x = of_int (round_half_even (x / f64_ulp x)) * f64_ulp x"

text \<open>\<open>float64(n)\<close> for an integer, the quotient and the product of two float64 values.
  Every divisor in the program is a non-zero constant or guarded to be positive.\<close>

definition f64_of_int :: "int \<Rightarrow> real" where
  "f64_of_int n = f64_round (of_int n)"

definition f64_div :: "real \<Rightarrow> real \<Rightarrow> real" where
  "f64_div x y = f64_round (x / y)"

definition f64_mul :: "real \<Rightarrow> real \<Rightarrow> real" where
  "f64_mul x y = f64_round (x * y)"

text \<open>\<open>math.Round\<close>: the nearest integer, halves away from zero.\<close>

definition go_Round :: "real \<Rightarrow> real" where
  "go_Round x = (if x < 0 then - of_int \<lfloor>- x + 1 / 2\<rfloor> else of_int \<lfloor>x + 1 / 2\<rfloor>)"

text \<open>\<open>int(f)\<close> for a float64 \<open>f\<close> discards the fraction. Go leaves the result to the
  implementation when the value does not fit the 64-bit int; \<open>int_of_f64\<close> is \<open>None\<close> there.\<close>

definition f64_trunc :: "real \<Rightarrow> int" where
  "f64_trunc x = (if x < 0 then - \<lfloor>- x\<rfloor> else \<lfloor>x\<rfloor>)"

definition int_of_f64 :: "real \<Rightarrow> int option" where
  "int_of_f64 x =
     (if - (2 ^ 63) \<le> f64_trunc x \<and> f64_trunc x < 2 ^ 63 then Some (f64_trunc x) else None)"

subsection \<open>Integers, slices and strings\<close>

text \<open>Go's \<open>%\<close> on ints truncates towards zero: the result has the sign of the dividend.\<close>

definition go_rem :: "int \<Rightarrow> int \<Rightarrow> int" where
  "go_rem a b = sgn a * (\<bar>a\<bar> mod \<bar>b\<bar>)"

text \<open>A rune is a Unicode code point; a string is the sequence of its runes.\<close>

type_synonym rune = nat

datatype panic = IndexOutOfRange

text \<open>Running a list of computations, each of which may panic: the first panic ends the
  program.\<close>

fun collect_results :: "('e + 'a) list \<Rightarrow> 'e + 'a list" where
  "collect_results [] = Inr []"
| "collect_results (r # rs) =
     (case r of
        Inl e \<Rightarrow> Inl e
      | Inr v \<Rightarrow> (case collect_results rs of Inl e \<Rightarrow> Inl e | Inr vs \<Rightarrow> Inr (v # vs)))"

text \<open>\<open>strings.Join\<close>.\<close>

fun Join :: "'a list list \<Rightarrow> 'a list \<Rightarrow> 'a list" where
  "Join [] sep = []"
| "Join [s] sep = s"
| "Join (s # t # ts) sep = s @ sep @ Join (t # ts) sep"

text \<open>\<open>strings.TrimRight(s, " ")\<close>: the trailing spaces are removed.\<close>

definition TrimRight_space :: "rune list \<Rightarrow> rune list" where
  "TrimRight_space s = rev (dropWhile (\<lambda>ch. ch = 32) (rev s))"

section \<open>Images\<close>

text \<open>\<open>color.Color.RGBA()\<close> returns four uint32 values; the interface promises each of them
  in \<open>0 .. 0xffff\<close>.\<close>

record Color =
  RGBA_r :: "32 word"
  RGBA_g :: "32 word"
  RGBA_b :: "32 word"
  RGBA_a :: "32 word"

definition valid_Color :: "Color \<Rightarrow> bool" where
  "valid_Color c \<longleftrightarrow>
     RGBA_r c \<le> 0xFFFF \<and> RGBA_g c \<le> 0xFFFF \<and> RGBA_b c \<le> 0xFFFF \<and> RGBA_a c \<le> 0xFFFF"

text \<open>An \<open>image.Image\<close> with bounds from \<open>(0, 0)\<close> to \<open>Max\<close>, as \<open>image.NewRGBA\<close> and the
  decoders make them, and its \<open>At\<close> method.\<close>

record Image =
  Max_X :: nat
  Max_Y :: nat
  At :: "nat \<Rightarrow> nat \<Rightarrow> Color"

definition valid_Image :: "Image \<Rightarrow> bool" where
  "valid_Image img \<longleftrightarrow> (\<forall>x < Max_X img. \<forall>y < Max_Y img. valid_Color (At img x y))"

section \<open>Package convert\<close>

text \<open>\<open>const CharStep = float64((65535.0 * 3.0) / 29.0)\<close>: the constant expression is exact,
  the conversion rounds it.\<close>

definition CharStep :: real where
  "CharStep = f64_round ((65535 * 3) / 29)"

text \<open>\<open>[]rune("\<dots>")\<close> of the 29 glyphs, from U+00D1 down to the space.\<close>

definition ASCIIChars :: "rune list" where
  "ASCIIChars =
     [209, 64, 35, 87, 36, 57, 56, 55, 54, 53, 52, 51, 50, 49, 48, 63, 33, 97, 98, 99,
      59, 58, 43, 61, 45, 44, 46, 95, 32]"

definition cLen :: int where
  "cLen = int (length ASCIIChars)"

text \<open>The fields \<open>x\<close>, \<open>y\<close> and \<open>char\<close> of \<open>PixelChar\<close>, and later the field \<open>c\<close> of
  \<open>ColourPixelChar\<close>, are written with the prefix \<open>pc_\<close>.\<close>

record PixelChar =
  pc_x :: nat
  pc_y :: nat
  pc_char :: rune

text \<open>The body of the loop of \<open>convertRow\<close> and of \<open>convertRowColour\<close>, which is the same text
  in both: the value of \<open>i\<close> when the glyph is looked up. The sum \<open>r+g+b\<close> is a uint32 and
  wraps around; its quotient by the step is below \<open>2 ^ 20\<close>, so that the conversion to int
  is always defined (\<open>quotient_fits_int\<close>).\<close>

definition pixelIndex :: "bool \<Rightarrow> Color \<Rightarrow> int" where
  "pixelIndex reverse c =
     (if RGBA_a c = 0 then cLen - 1
      else
        let i = f64_trunc
                  (f64_div (f64_of_int (uint (RGBA_r c + RGBA_g c + RGBA_b c))) CharStep)
        in if \<not> reverse then cLen - i else i)"

text \<open>\<open>ASCIIChars[i%cLen]\<close>: an index outside the slice panics.\<close>

definition glyphAt :: "int \<Rightarrow> panic + rune" where
  "glyphAt i =
     (let k = go_rem i cLen
      in if 0 \<le> k \<and> k < cLen then Inr (ASCIIChars ! nat k) else Inl IndexOutOfRange)"

definition convertRow :: "Image \<Rightarrow> nat \<Rightarrow> bool \<Rightarrow> panic + PixelChar list" where
  "convertRow img y reverse =
     collect_results
       (map (\<lambda>x. case glyphAt (pixelIndex reverse (At img x y)) of
                   Inl e \<Rightarrow> Inl e
                 | Inr ch \<Rightarrow> Inr \<lparr>pc_x = x, pc_y = y, pc_char = ch\<rparr>)
            [0..<Max_X img])"

subsection \<open>The collector goroutine\<close>

text \<open>\<open>matrix[y][i] = v\<close>: both index operations panic outside the slice.\<close>

definition store :: "'a list list \<Rightarrow> nat \<Rightarrow> int \<Rightarrow> 'a \<Rightarrow> panic + 'a list list" where
  "store M y i v =
     (if y < length M \<and> 0 \<le> i \<and> i < int (length (M ! y))
      then Inr (M[y := (M ! y)[nat i := v]])
      else Inl IndexOutOfRange)"

text \<open>\<open>i = len(matrix[pc.y]) - i - 1\<close>, the column of a mirrored cell.\<close>

definition mirrorIndex :: "nat \<Rightarrow> nat \<Rightarrow> int" where
  "mirrorIndex len i = int len - int i - 1"

text \<open>The collector receives the messages of the channel one by one; a message carries the
  column, the row and the cell to store. The workers of the rows run concurrently, so the
  order of the messages is not fixed: the functions below hand the rows over one after the
  other, and \<open>collector_schedule\<close> shows that every other order fills the matrix alike.\<close>

fun collector :: "bool \<Rightarrow> 'a list list \<Rightarrow> (nat \<times> nat \<times> 'a) list \<Rightarrow> panic + 'a list list" where
  "collector invert M [] = Inr M"
| "collector invert M ((x, y, v) # ms) =
     (let i = (if invert then mirrorIndex (length (M ! y)) x else int x)
      in case store M y i v of
           Inl e \<Rightarrow> Inl e
         | Inr M' \<Rightarrow> collector invert M' ms)"

subsection \<open>Plain output\<close>

definition ImgToASCII_matrix :: "Image \<Rightarrow> bool \<Rightarrow> bool \<Rightarrow> panic + rune list list" where
  "ImgToASCII_matrix img negative invert =
     (case collect_results (map (\<lambda>y. convertRow img y negative) [0..<Max_Y img]) of
        Inl e \<Rightarrow> Inl e
      | Inr rows \<Rightarrow>
          collector invert (replicate (Max_Y img) (replicate (Max_X img) 0))
            (map (\<lambda>pc. (pc_x pc, pc_y pc, pc_char pc)) (concat rows)))"

definition ImgToASCII :: "Image \<Rightarrow> bool \<Rightarrow> bool \<Rightarrow> panic + rune list" where
  "ImgToASCII img negative invert =
     (case ImgToASCII_matrix img negative invert of
        Inl e \<Rightarrow> Inl e
      | Inr matrix \<Rightarrow> Inr (Join matrix [10]))"

section \<open>Package colour\<close>

text \<open>Strings of this package are ASCII; \<open>runes\<close> reads such a string as code points.\<close>

definition runes :: "string \<Rightarrow> rune list" where
  "runes s = map of_char s"

definition ResetColour :: string where
  "ResetColour = CHR 0x1B # ''[0m''"

record Colour256 =
  R :: "8 word"
  G :: "8 word"
  B :: "8 word"

definition FromColor :: "Color \<Rightarrow> Colour256 option" where
  "FromColor c =
     (if RGBA_a c = 0 then None
      else Some \<lparr>R = ucast (RGBA_r c div 256),
                 G = ucast (RGBA_g c div 256),
                 B = ucast (RGBA_b c div 256)\<rparr>)"

text \<open>The verbs \<open>%d\<close> and \<open>%02x\<close> of \<open>fmt.Sprintf\<close> on a uint8.\<close>

definition digit_char :: "nat \<Rightarrow> char" where
  "digit_char d = ''0123456789abcdef'' ! d"

definition fmt_d :: "8 word \<Rightarrow> string" where
  "fmt_d v =
     (let n = unat v
      in if n < 10 then [digit_char n]
         else if n < 100 then [digit_char (n div 10), digit_char (n mod 10)]
         else [digit_char (n div 100), digit_char (n div 10 mod 10), digit_char (n mod 10)])"

definition fmt_02x :: "8 word \<Rightarrow> string" where
  "fmt_02x v = [digit_char (unat v div 16), digit_char (unat v mod 16)]"

definition TrueEsc :: "Colour256 \<Rightarrow> string" where
  "TrueEsc c =
     CHR 0x1B # ''[48;2;'' @ fmt_d (R c) @ '';'' @ fmt_d (G c) @ '';'' @ fmt_d (B c) @ ''m''"

definition Hex :: "Colour256 \<Rightarrow> string" where
  "Hex c = ''0x'' @ fmt_02x (R c) @ fmt_02x (G c) @ fmt_02x (B c)"

text \<open>\<open>strconv.ParseUint(s, base, bitSize)\<close> of the Go library, for a base from 2 to 36 and
  a bit size from 1 to 64, the only way \<open>FromHex\<close> calls it: no prefix is read, every
  byte has to be a digit below the base, and the value has to fit the bit size.\<close>

datatype error = ErrSyntax | ErrRange

definition digit_of :: "char \<Rightarrow> nat option" where
  "digit_of c =
     (let n = (of_char c :: nat); l = n OR 32
      in if 48 \<le> n \<and> n \<le> 57 then Some (n - 48)
         else if 97 \<le> l \<and> l \<le> 122 then Some (l - 97 + 10)
         else None)"

fun ParseUint_loop :: "nat \<Rightarrow> nat \<Rightarrow> nat \<Rightarrow> string \<Rightarrow> error + nat" where
  "ParseUint_loop base maxVal n [] = Inr n"
| "ParseUint_loop base maxVal n (c # cs) =
     (case digit_of c of
        None \<Rightarrow> Inl ErrSyntax
      | Some d \<Rightarrow>
          if base \<le> d then Inl ErrSyntax
          else if (2 ^ 64 - 1) div base + 1 \<le> n then Inl ErrRange
          else if maxVal < n * base + d then Inl ErrRange
          else ParseUint_loop base maxVal (n * base + d) cs)"

definition ParseUint :: "string \<Rightarrow> nat \<Rightarrow> nat \<Rightarrow> error + 64 word" where
  "ParseUint s base bitSize =
     (if s = [] then Inl ErrSyntax
      else case ParseUint_loop base (2 ^ bitSize - 1) 0 s of
             Inl e \<Rightarrow> Inl e
           | Inr n \<Rightarrow> Inr (word_of_nat n))"

definition FromHex :: "string \<Rightarrow> error + Colour256" where
  "FromHex hex =
     (case ParseUint hex 16 32 of
        Inl err \<Rightarrow> Inl err
      | Inr val \<Rightarrow>
          Inr \<lparr>R = ucast (drop_bit 16 val),
               G = ucast (drop_bit 8 val AND 0xFF),
               B = ucast (val AND 0xFF)\<rparr>)"

section \<open>Package convert, coloured output\<close>

record ColourPixelChar = PixelChar +
  pc_c :: "Colour256 option"

definition convertRowColour :: "Image \<Rightarrow> nat \<Rightarrow> bool \<Rightarrow> panic + ColourPixelChar list" where
  "convertRowColour img y reverse =
     collect_results
       (map (\<lambda>x. let c = At img x y
                 in case glyphAt (pixelIndex reverse c) of
                      Inl e \<Rightarrow> Inl e
                    | Inr ch \<Rightarrow> Inr \<lparr>pc_x = x, pc_y = y, pc_char = ch, pc_c = FromColor c\<rparr>)
            [0..<Max_X img])"

definition rowColours :: "Image \<Rightarrow> nat \<Rightarrow> ColourPixelChar list" where
  "rowColours img y =
     map (\<lambda>x. \<lparr>pc_x = x, pc_y = y, pc_char = 0, pc_c = FromColor (At img x y)\<rparr>)
       [0..<Max_X img]"

text \<open>The escape sequence of a pixel: the empty string for a nil colour.\<close>

definition colourEsc :: "Colour256 option \<Rightarrow> rune list" where
  "colourEsc c = (case c of None \<Rightarrow> [] | Some c' \<Rightarrow> runes (TrueEsc c'))"

text \<open>\<open>fmt.Sprintf("%s%c", te, pc.char)\<close>.\<close>

definition colourCell :: "ColourPixelChar \<Rightarrow> rune list" where
  "colourCell pc = colourEsc (pc_c pc) @ [pc_char pc]"

definition ImgToASCIIColoured_matrix ::
  "Image \<Rightarrow> bool \<Rightarrow> bool \<Rightarrow> panic + rune list list list" where
  "ImgToASCIIColoured_matrix img negative invert =
     (case collect_results (map (\<lambda>y. convertRowColour img y negative) [0..<Max_Y img]) of
        Inl e \<Rightarrow> Inl e
      | Inr rows \<Rightarrow>
          collector invert (replicate (Max_Y img) (replicate (Max_X img) []))
            (map (\<lambda>pc. (pc_x pc, pc_y pc, colourCell pc)) (concat rows)))"

definition ImgToASCIIColoured :: "Image \<Rightarrow> bool \<Rightarrow> bool \<Rightarrow> panic + rune list" where
  "ImgToASCIIColoured img negative invert =
     (case ImgToASCIIColoured_matrix img negative invert of
        Inl e \<Rightarrow> Inl e
      | Inr matrix \<Rightarrow>
          Inr (Join (map (\<lambda>r. Join r []) matrix) [10] @ runes ResetColour))"

text \<open>\<open>emptyChar = "%s   "\<close> and \<open>emptySingleChar = "%s "\<close>.\<close>

definition previewCell :: "bool \<Rightarrow> ColourPixelChar \<Rightarrow> rune list" where
  "previewCell single pc =
     colourEsc (pc_c pc) @ (if single then runes '' '' else runes ''   '')"

definition ImgToPreview_matrix :: "Image \<Rightarrow> bool \<Rightarrow> panic + rune list list list" where
  "ImgToPreview_matrix img single =
     collector False (replicate (Max_Y img) (replicate (Max_X img) []))
       (map (\<lambda>pc. (pc_x pc, pc_y pc, previewCell single pc))
          (concat (map (\<lambda>y. rowColours img y) [0..<Max_Y img])))"

definition ImgToPreview :: "Image \<Rightarrow> bool \<Rightarrow> panic + rune list" where
  "ImgToPreview img single =
     (case ImgToPreview_matrix img single of
        Inl e \<Rightarrow> Inl e
      | Inr matrix \<Rightarrow>
          Inr (Join (map (\<lambda>r. Join r (runes ResetColour)) matrix)
                 (runes ResetColour @ [10])))"

section \<open>Package scale\<close>

datatype Mode =
  NearestNeighbourScaling | ApproxBilinearScaling | BilinearScaling | CatmullRomScaling

text \<open>\<open>Width\<close> and \<open>Height\<close> are of type uint and \<open>Factor\<close> is a float64. The int and
  uint of Go are taken with 64 bits.\<close>

record ScaleOpts =
  Width :: "64 word"
  Height :: "64 word"
  Factor :: real
  Mode :: Mode

text \<open>The conversion \<open>int(opts.Width)\<close> of a uint keeps the bits: \<open>sint\<close>. The conversions
  of the rounded products are defined when the values fit the int.\<close>

definition getScaledXY :: "ScaleOpts \<Rightarrow> Image \<Rightarrow> (int \<times> int) option" where
  "getScaledXY opts src =
     (if Factor opts = 0 then Some (sint (Width opts), sint (Height opts))
      else
        let x = go_Round (f64_mul (f64_of_int (int (Max_X src))) (Factor opts));
            y = go_Round (f64_mul (f64_of_int (int (Max_Y src))) (Factor opts))
        in case (int_of_f64 x, int_of_f64 y) of
             (Some xi, Some yi) \<Rightarrow> Some (xi, yi)
           | _ \<Rightarrow> None)"

text \<open>\<open>image.Rect(x0, y0, x1, y1)\<close> orders its corners; \<open>Dx\<close> and \<open>Dy\<close> are the width and
  the height of a rectangle.\<close>

record Rectangle =
  Min_pt :: "int \<times> int"
  Max_pt :: "int \<times> int"

definition Rect :: "int \<Rightarrow> int \<Rightarrow> int \<Rightarrow> int \<Rightarrow> Rectangle" where
  "Rect x0 y0 x1 y1 = \<lparr>Min_pt = (min x0 x1, min y0 y1), Max_pt = (max x0 x1, max y0 y1)\<rparr>"

definition Dx :: "Rectangle \<Rightarrow> int" where
  "Dx r = fst (Max_pt r) - fst (Min_pt r)"

definition Dy :: "Rectangle \<Rightarrow> int" where
  "Dy r = snd (Max_pt r) - snd (Min_pt r)"

text \<open>\<open>scale.Image\<close> allocates \<open>image.NewRGBA(image.Rect(0, 0, x, y))\<close> and has a scaler of
  \<open>golang.org/x/image/draw\<close> fill it. The pixels are the work of that library; the bounds
  of the result are those of the rectangle.\<close>

definition Image_bounds :: "Image \<Rightarrow> ScaleOpts \<Rightarrow> Rectangle option" where
  "Image_bounds src opts =
     (case getScaledXY opts src of
        None \<Rightarrow> None
      | Some (x, y) \<Rightarrow> Some (Rect 0 0 x y))"

text \<open>The block "determine factor" of \<open>FileToWindow\<close>, on the decoded image: the options
  that are handed to \<open>scale.Image\<close>.\<close>

definition FileToWindow_opts :: "Image \<Rightarrow> ScaleOpts \<Rightarrow> ScaleOpts" where
  "FileToWindow_opts src opts =
     (if Width opts \<noteq> 0 \<and> Height opts \<noteq> 0 \<and> Factor opts \<noteq> 0 then
        let (opts1, useFact1) =
              (if Height opts < word_of_nat (Max_Y src) then
                 let hf = f64_div (f64_of_int (uint (Height opts))) (f64_of_int (int (Max_Y src)))
                 in if hf < Factor opts then (opts\<lparr>Factor := hf\<rparr>, True) else (opts, False)
               else (opts, False));
            (opts2, useFact2) =
              (if Width opts1 < word_of_nat (Max_X src) then
                 let hf = f64_div (f64_of_int (uint (Width opts1))) (f64_of_int (int (Max_X src)))
                 in if hf < Factor opts1 then (opts1\<lparr>Factor := hf\<rparr>, True) else (opts1, useFact1)
               else (opts1, useFact1));
            opts3 = (if 1 < Factor opts2 then opts2\<lparr>Factor := 1\<rparr> else opts2)
        in if useFact2 then opts3\<lparr>Width := 0, Height := 0\<rparr> else opts3
      else opts)"

definition FileToWindow :: "Image \<Rightarrow> ScaleOpts \<Rightarrow> Rectangle option" where
  "FileToWindow src opts = Image_bounds src (FileToWindow_opts src opts)"

section \<open>The single-file program\<close>

text \<open>The file \<open>main.go\<close> has its own \<open>CharStep\<close>, \<open>ASCIIChars\<close> and \<open>convertRow\<close>, written
  here with the prefix \<open>main_\<close>: \<open>CharStep = 34 * 257\<close> is an integer, and the slice of glyphs
  has 30 runes. Of the \<open>Config\<close> only the field \<open>reverse\<close> is read by \<open>imgToASCII\<close>.\<close>

definition main_CharStep :: int where
  "main_CharStep = 34 * 257"

definition main_ASCIIChars :: "rune list" where
  "main_ASCIIChars =
     [195, 8216, 64, 35, 87, 36, 57, 56, 55, 54, 53, 52, 51, 50, 49, 48, 63, 33, 97, 98, 99,
      59, 58, 43, 61, 45, 44, 46, 95, 32]"

definition main_pixelIndex :: "bool \<Rightarrow> Color \<Rightarrow> int" where
  "main_pixelIndex reverse c =
     (if RGBA_a c = 0 then int (length main_ASCIIChars) - 1
      else
        let i = uint (RGBA_r c + RGBA_g c + RGBA_b c) div main_CharStep
        in if \<not> reverse then int (length main_ASCIIChars) - i else i)"

definition main_glyphAt :: "int \<Rightarrow> panic + rune" where
  "main_glyphAt i =
     (let k = go_rem i (int (length main_ASCIIChars))
      in if 0 \<le> k \<and> k < int (length main_ASCIIChars)
         then Inr (main_ASCIIChars ! nat k) else Inl IndexOutOfRange)"

definition main_convertRow :: "Image \<Rightarrow> nat \<Rightarrow> bool \<Rightarrow> panic + PixelChar list" where
  "main_convertRow img y reverse =
     collect_results
       (map (\<lambda>x. case main_glyphAt (main_pixelIndex reverse (At img x y)) of
                   Inl e \<Rightarrow> Inl e
                 | Inr ch \<Rightarrow> Inr \<lparr>pc_x = x, pc_y = y, pc_char = ch\<rparr>)
            [0..<Max_X img])"

definition imgToASCII_matrix :: "bool \<Rightarrow> Image \<Rightarrow> panic + rune list list" where
  "imgToASCII_matrix reverse scaled =
     (case collect_results (map (\<lambda>y. main_convertRow scaled y reverse) [0..<Max_Y scaled]) of
        Inl e \<Rightarrow> Inl e
      | Inr rows \<Rightarrow>
          collector False (replicate (Max_Y scaled) (replicate (Max_X scaled) 0))
            (map (\<lambda>pc. (pc_x pc, pc_y pc, pc_char pc)) (concat rows)))"

definition imgToASCII :: "bool \<Rightarrow> Image \<Rightarrow> panic + rune list" where
  "imgToASCII reverse scaled =
     (case imgToASCII_matrix reverse scaled of
        Inl e \<Rightarrow> Inl e
      | Inr matrix \<Rightarrow> Inr (Join (map TrimRight_space matrix) [10]))"

section \<open>Notions used to state the properties\<close>

text \<open>The sum of the three colour channels of a pixel, the index \<open>i%cLen\<close> at which the
  slice of glyphs is read for it, and the glyph found there.\<close>

definition channelSum :: "Color \<Rightarrow> int" where
  "channelSum c = uint (RGBA_r c) + uint (RGBA_g c) + uint (RGBA_b c)"

definition glyphIndex :: "bool \<Rightarrow> Color \<Rightarrow> int" where
  "glyphIndex reverse c = go_rem (pixelIndex reverse c) cLen"

definition glyph :: "bool \<Rightarrow> Color \<Rightarrow> rune" where
  "glyph reverse c = ASCIIChars ! nat (glyphIndex reverse c)"

definition main_glyph :: "bool \<Rightarrow> Color \<Rightarrow> rune" where
  "main_glyph reverse c =
     main_ASCIIChars ! nat (go_rem (main_pixelIndex reverse c) (int (length main_ASCIIChars)))"

text \<open>The column of the matrix that receives the pixel of column \<open>x\<close> in a row of width \<open>w\<close>.\<close>

definition cellIndex :: "bool \<Rightarrow> nat \<Rightarrow> nat \<Rightarrow> nat" where
  "cellIndex invert w x = (if invert then w - x - 1 else x)"

text \<open>An image of one colour, an image whose first column has a colour of its own, and
  the lines of a text: the parts between its line feeds.\<close>

definition solid :: "nat \<Rightarrow> nat \<Rightarrow> Color \<Rightarrow> Image" where
  "solid w h c = \<lparr>Max_X = w, Max_Y = h, At = (\<lambda>x y. c)\<rparr>"

definition leftColumn :: "nat \<Rightarrow> nat \<Rightarrow> Color \<Rightarrow> Color \<Rightarrow> Image" where
  "leftColumn w h c d = \<lparr>Max_X = w, Max_Y = h, At = (\<lambda>x y. if x = 0 then c else d)\<rparr>"

fun splitLines :: "rune list \<Rightarrow> rune list list" where
  "splitLines [] = [[]]"
| "splitLines (ch # s) =
     (if ch = 10 then [] # splitLines s
      else (case splitLines s of l # ls \<Rightarrow> (ch # l) # ls | [] \<Rightarrow> [[ch]]))"

section \<open>Rounding to float64\<close>

lemma round_half_even_err: "\<bar>of_int (round_half_even x) - x\<bar> \<le> 1 / 2"
  unfolding round_half_even_def Let_def by (auto simp: abs_if) linarith+

lemma round_half_even_of_int: "round_half_even (of_int n) = n"
  by (simp add: round_half_even_def)

lemma pow2_less_cancel: "(2::real) powi a < 2 powi b \<Longrightarrow> a < b"
  using power_int_increasing[of b a "2::real"] by (cases "a < b") auto

lemma expo_search_ge: "- 1022 \<le> expo_search n x"
  by (induction n) auto

lemma expo_search_less:
  "x < 2 powi k \<Longrightarrow> - 1021 \<le> k \<Longrightarrow> expo_search n x < k"
proof (induction n)
  case 0
  then show ?case by simp
next
  case (Suc n)
  show ?case
  proof (cases "2 powi (int n - 1021) \<le> x")
    case True
    with Suc.prems have "(2::real) powi (int n - 1021) < 2 powi k" by simp
    then have "int n - 1021 < k"
      by (rule pow2_less_cancel)
    with True show ?thesis by simp
  next
    case False
    with Suc show ?thesis by simp
  qed
qed

lemma expo_search_le:
  "2 powi e \<le> x \<Longrightarrow> e \<le> int n - 1022 \<Longrightarrow> e \<le> expo_search n x"
proof (induction n)
  case 0
  then show ?case by simp
next
  case (Suc n)
  show ?case
  proof (cases "2 powi (int n - 1021) \<le> x")
    case True
    with Suc.prems show ?thesis by simp
  next
    case False
    with Suc.prems have "(2::real) powi e < 2 powi (int n - 1021)" by simp
    then have "e < int n - 1021"
      by (rule pow2_less_cancel)
    with False Suc show ?thesis by simp
  qed
qed

lemma f64_expo_less: "\<bar>x\<bar> < 2 powi k \<Longrightarrow> - 1021 \<le> k \<Longrightarrow> f64_expo x < k"
  by (simp add: f64_expo_def expo_search_less)

lemma f64_expo_eqI:
  assumes "2 powi e \<le> \<bar>x\<bar>" "\<bar>x\<bar> < 2 powi (e + 1)" "- 1022 \<le> e" "e \<le> 1023"
  shows "f64_expo x = e"
proof -
  have "f64_expo x < e + 1" using assms by (intro f64_expo_less) auto
  moreover have "e \<le> f64_expo x"
    unfolding f64_expo_def using assms by (intro expo_search_le) auto
  ultimately show ?thesis by simp
qed

lemma f64_ulp_pos: "0 < f64_ulp x"
  by (simp add: f64_ulp_def zero_less_power_int)

lemma f64_round_err: "\<bar>f64_round x - x\<bar> \<le> f64_ulp x / 2"
proof -
  let ?u = "f64_ulp x"
  have u: "0 < ?u" by (rule f64_ulp_pos)
  have "\<bar>of_int (round_half_even (x / ?u)) - x / ?u\<bar> \<le> 1 / 2"
    by (rule round_half_even_err)
  then have "\<bar>of_int (round_half_even (x / ?u)) - x / ?u\<bar> * ?u \<le> 1 / 2 * ?u"
    using u by (intro mult_right_mono) auto
  moreover have "\<bar>of_int (round_half_even (x / ?u)) - x / ?u\<bar> * ?u
      = \<bar>(of_int (round_half_even (x / ?u)) - x / ?u) * ?u\<bar>"
    using u by (simp add: abs_mult)
  moreover have "(of_int (round_half_even (x / ?u)) - x / ?u) * ?u = f64_round x - x"
    using u by (simp add: f64_round_def left_diff_distrib)
  ultimately show ?thesis by simp
qed

lemma f64_ulp_le: "\<bar>x\<bar> < 2 powi k \<Longrightarrow> - 1021 \<le> k \<Longrightarrow> f64_ulp x \<le> 2 powi (k - 53)"
  unfolding f64_ulp_def using f64_expo_less[of x k] by (intro power_int_increasing) auto

lemma f64_round_0: "f64_round 0 = 0"
  by (simp add: f64_round_def round_half_even_def)

lemma f64_round_of_int:
  assumes "\<bar>n\<bar> < 2 ^ 53"
  shows "f64_round (of_int n) = of_int n"
proof -
  have "\<bar>of_int n :: real\<bar> < 2 powi 53"
  proof -
    have "(of_int \<bar>n\<bar> :: real) < of_int (2 ^ 53)"
      using assms by (simp only: of_int_less_iff)
    then show ?thesis by simp
  qed
  then have "f64_expo (of_int n) < 53" by (rule f64_expo_less) simp
  define k where "k = nat (52 - f64_expo (of_int n))"
  with \<open>f64_expo (of_int n) < 53\<close> have k: "f64_expo (of_int n) - 52 = - int k"
    by simp
  have u: "f64_ulp (of_int n) = 1 / 2 ^ k"
    by (simp add: f64_ulp_def k power_int_minus field_simps)
  have "of_int n / f64_ulp (of_int n) = (of_int (n * 2 ^ k) :: real)"
    by (simp add: u)
  then show ?thesis
    unfolding f64_round_def by (simp only: round_half_even_of_int) (simp add: u)
qed

lemma f64_of_int_exact: "\<bar>n\<bar> < 2 ^ 53 \<Longrightarrow> f64_of_int n = of_int n"
  by (simp add: f64_of_int_def f64_round_of_int)

lemma f64_round_eval:
  assumes "f64_expo x = e" and "round_half_even (x / 2 powi (e - 52)) = m"
  shows "f64_round x = of_int m * 2 powi (e - 52)"
  using assms by (simp add: f64_round_def f64_ulp_def)

lemma CharStep_expo: "f64_expo (196605 / 29) = 12"
  by (rule f64_expo_eqI) simp_all

lemma CharStep_value: "CharStep = 7454120123410361 / 1099511627776"
proof -
  have "round_half_even (196605 / 29 / 2 powi (12 - 52)) = 7454120123410361"
    by (simp add: round_half_even_def power_int_minus Let_def)
  with CharStep_expo have "f64_round (196605 / 29) = of_int 7454120123410361 * 2 powi (12 - 52)"
    by (rule f64_round_eval)
  then show ?thesis by (simp add: CharStep_def power_int_minus)
qed

section \<open>The quotient of a channel sum by the step\<close>

lemma coprime_step: "coprime (196605::int) 29"
  by (simp add: coprime_iff_gcd_eq_1 gcd_red_int[of 196605 29] gcd_red_int[of 29 14] gcd_red_int[of 14 1])

lemma quotient_small:
  assumes "\<bar>q\<bar> < 32"
  shows "\<bar>f64_round q - q\<bar> \<le> 1 / 562949953421312"
proof -
  have "f64_ulp q \<le> 2 powi (5 - 53)"
    using assms by (intro f64_ulp_le) simp_all
  then have "f64_ulp q / 2 \<le> 1 / 562949953421312"
    by (simp add: power_int_minus)
  with f64_round_err[of q] show ?thesis by linarith
qed

lemma f64_div_white: "f64_round (196605 / CharStep) = 29"
proof -
  have e: "f64_expo (196605 / CharStep) = 4"
    by (rule f64_expo_eqI) (simp_all add: CharStep_value)
  have "round_half_even (196605 / CharStep / 2 powi (4 - 52)) = 8162774324609024"
    by (simp add: round_half_even_def power_int_minus Let_def CharStep_value)
  with e have "f64_round (196605 / CharStep) = of_int 8162774324609024 * 2 powi (4 - 52)"
    by (rule f64_round_eval)
  then show ?thesis by (simp add: power_int_minus)
qed

lemma step_quotient:
  assumes "s \<le> 196605"
  shows "f64_trunc (f64_div (f64_of_int (int s)) CharStep) = (29 * int s) div 196605"
proof -
  have conv: "f64_of_int (int s) = of_nat s"
  proof -
    have "f64_round (of_int (int s)) = of_int (int s)"
      using assms by (intro f64_round_of_int) simp
    then show ?thesis by (simp add: f64_of_int_def)
  qed
  have t: "f64_div (f64_of_int (int s)) CharStep = f64_round (real s / CharStep)"
    by (simp only: conv f64_div_def)
  consider "s = 0" | "s = 196605" | "0 < s" "s < 196605"
    using assms by linarith
  then show ?thesis
  proof cases
    case 1
    then show ?thesis unfolding t by (simp add: f64_round_0 f64_trunc_def)
  next
    case 2
    then show ?thesis unfolding t by (simp add: f64_div_white f64_trunc_def)
  next
    case 3
    define k where "k = (29 * int s) div 196605"
    define r where "r = (29 * int s) mod 196605"
    define q where "q = real s / CharStep"
    have kr: "196605 * k + r = 29 * int s"
      by (simp add: k_def r_def)
    have "r \<noteq> 0"
    proof
      assume "r = 0"
      then have "(196605::int) dvd 29 * int s" by (simp add: r_def dvd_eq_mod_eq_0)
      then have "(196605::int) dvd int s"
        using coprime_step by (simp add: coprime_dvd_mult_right_iff)
      then have "196605 \<le> int s" using 3 by (intro zdvd_imp_le) auto
      with 3 show False by simp
    qed
    moreover have "0 \<le> r" "r < 196605" by (simp_all add: r_def)
    ultimately have r: "1 \<le> r" "r \<le> 196604" by linarith+
    have k0: "0 \<le> k" by (simp add: k_def)
    have lo: "196605 * real_of_int k + 1 \<le> 29 * real s"
    proof -
      have "196605 * k + 1 \<le> 29 * int s" using kr r by linarith
      then have "real_of_int (196605 * k + 1) \<le> real_of_int (29 * int s)"
        by (simp only: of_int_le_iff)
      then show ?thesis by simp
    qed
    have hi: "29 * real s \<le> 196605 * real_of_int k + 196604"
    proof -
      have "29 * int s \<le> 196605 * k + 196604" using kr r by linarith
      then have "real_of_int (29 * int s) \<le> real_of_int (196605 * k + 196604)"
        by (simp only: of_int_le_iff)
      then show ?thesis by simp
    qed
    have q: "q = real s * (1099511627776 / 7454120123410361)"
      by (simp add: q_def CharStep_value)
    have s: "0 < real s" "real s < 196605" using 3 by simp_all
    have "\<bar>q\<bar> < 32" using s by (simp add: q) 
    then have err: "\<bar>f64_round q - q\<bar> \<le> 1 / 562949953421312"
      by (rule quotient_small)
    have "real_of_int k \<le> f64_round q" "f64_round q < real_of_int k + 1"
      using err lo hi s unfolding q by linarith+
    then have "\<lfloor>f64_round q\<rfloor> = k" by (intro floor_unique) auto
    moreover have "0 \<le> f64_round q"
      using \<open>real_of_int k \<le> f64_round q\<close> k0 by linarith
    ultimately show ?thesis
      unfolding t by (simp add: f64_trunc_def q_def k_def)
  qed
qed

lemma quotient_fits_int:
  fixes w :: "32 word"
  shows "int_of_f64 (f64_div (f64_of_int (uint w)) CharStep)
           = Some (f64_trunc (f64_div (f64_of_int (uint w)) CharStep))"
proof -
  define s where "s = uint w"
  have s: "0 \<le> s" "s < 2 ^ 32"
    using uint_lt2p[of w] by (simp_all add: s_def)
  then have "\<bar>s\<bar> < 2 ^ 53" by simp
  then have conv: "f64_of_int s = of_int s" by (rule f64_of_int_exact)
  define q where "q = real_of_int s / CharStep"
  have sr: "0 \<le> real_of_int s" "real_of_int s < 4294967296"
    using s by simp_all
  have q: "q = real_of_int s * (1099511627776 / 7454120123410361)"
    by (simp add: q_def CharStep_value)
  have q0: "0 \<le> q" and q1: "q < 1048576"
    using sr unfolding q by simp_all
  then have "\<bar>q\<bar> < 2 powi 20" by simp
  then have "f64_ulp q \<le> 2 powi (20 - 53)" by (rule f64_ulp_le) simp
  then have "f64_ulp q / 2 \<le> 1" by (simp add: power_int_minus)
  with f64_round_err[of q] have "\<bar>f64_round q - q\<bar> \<le> 1" by linarith
  with q0 q1 have r: "- 1 \<le> f64_round q" "f64_round q < 1048577" by linarith+
  have "- (2 ^ 63) \<le> f64_trunc (f64_round q)" "f64_trunc (f64_round q) < 2 ^ 63"
    using r unfolding f64_trunc_def by (auto simp: floor_less_iff le_floor_iff) linarith+
  then show ?thesis
    by (simp add: int_of_f64_def f64_div_def conv q_def s_def[symmetric])
qed

section \<open>The matrix that the collector fills\<close>

lemma cellIndex_less: "x < w \<Longrightarrow> cellIndex invert w x < w"
  by (auto simp: cellIndex_def)

lemma cellIndex_involution: "x < w \<Longrightarrow> cellIndex invert w (cellIndex invert w x) = x"
  by (auto simp: cellIndex_def)

lemma mirrorIndex_cellIndex: "x < w \<Longrightarrow> mirrorIndex w x = int (cellIndex True w x)"
  by (auto simp: cellIndex_def mirrorIndex_def)

lemma collector_step:
  assumes "y < length M" and "length (M ! y) = w" and "x < w"
  shows "collector invert M ((x, y, v) # ms) =
           collector invert (M[y := (M ! y)[cellIndex invert w x := v]]) ms"
proof -
  have "(if invert then mirrorIndex (length (M ! y)) x else int x) = int (cellIndex invert w x)"
    using assms by (simp add: mirrorIndex_cellIndex) (simp add: cellIndex_def)
  moreover have "cellIndex invert w x < length (M ! y)"
    using assms by (simp add: cellIndex_less)
  ultimately show ?thesis
    using assms by (simp add: store_def)
qed

lemma find_snoc:
  "find P (xs @ [x]) = (case find P xs of Some z \<Rightarrow> Some z | None \<Rightarrow> if P x then Some x else None)"
  by (induction xs) auto

lemma find_Some_mem: "find P xs = Some z \<Longrightarrow> P z \<and> z \<in> set xs"
  by (induction xs) (auto split: if_splits)

lemma collector_cells:
  assumes "length M = h" and "\<forall>r \<in> set M. length r = w"
    and "\<forall>(x, y, v) \<in> set ms. x < w \<and> y < h"
  shows "\<exists>M'. collector invert M ms = Inr M' \<and> length M' = h \<and> (\<forall>r \<in> set M'. length r = w) \<and>
           (\<forall>y < h. \<forall>i < w. M' ! y ! i =
              (case find (\<lambda>(x, y', v). y' = y \<and> cellIndex invert w x = i) (rev ms) of
                 Some (x, y', v) \<Rightarrow> v
               | None \<Rightarrow> M ! y ! i))"
  using assms
proof (induction ms arbitrary: M)
  case Nil
  then show ?case by simp
next
  case (Cons m ms)
  obtain x y v where m: "m = (x, y, v)" by (cases m)
  from Cons.prems m have xy: "x < w" "y < h" by auto
  let ?M1 = "M[y := (M ! y)[cellIndex invert w x := v]]"
  have row: "length (M ! y) = w" using Cons.prems xy by simp
  have step: "collector invert M (m # ms) = collector invert ?M1 ms"
    unfolding m using xy row Cons.prems(1) by (intro collector_step) auto
  have len1: "length ?M1 = h" using Cons.prems by simp
  have rows1: "\<forall>r \<in> set ?M1. length r = w"
  proof
    fix r assume "r \<in> set ?M1"
    then have "r \<in> insert ((M ! y)[cellIndex invert w x := v]) (set M)"
      using set_update_subset_insert by fastforce
    then show "length r = w" using row Cons.prems(2) by auto
  qed
  from Cons.prems have rng: "\<forall>(x, y, v) \<in> set ms. x < w \<and> y < h" by simp
  from Cons.IH[OF len1 rows1 rng] obtain M' where M':
    "collector invert ?M1 ms = Inr M'" "length M' = h" "\<forall>r \<in> set M'. length r = w"
    "\<forall>y' < h. \<forall>i < w. M' ! y' ! i =
        (case find (\<lambda>(x, y'', v). y'' = y' \<and> cellIndex invert w x = i) (rev ms) of
           Some (x, y'', v) \<Rightarrow> v
         | None \<Rightarrow> ?M1 ! y' ! i)"
    by blast
  have "M' ! y' ! i =
          (case find (\<lambda>(x, y'', v). y'' = y' \<and> cellIndex invert w x = i) (rev (m # ms)) of
             Some (x, y'', v) \<Rightarrow> v
           | None \<Rightarrow> M ! y' ! i)" if "y' < h" "i < w" for y' i
  proof (cases "find (\<lambda>(x, y'', v). y'' = y' \<and> cellIndex invert w x = i) (rev ms)")
    case (Some z)
    with M'(4) that show ?thesis by (simp add: find_snoc)
  next
    case None
    have upd: "?M1 ! y' ! i = (if y' = y \<and> cellIndex invert w x = i then v else M ! y' ! i)"
      using that xy row Cons.prems(1) by (auto simp: nth_list_update)
    from None M'(4) that have "M' ! y' ! i = ?M1 ! y' ! i" by simp
    with None upd show ?thesis by (simp add: find_snoc m)
  qed
  with M' step show ?case by auto
qed

lemma collector_grid:
  assumes "set ms = {(x, y, f x y) | x y. x < w \<and> y < h}"
  shows "collector invert (replicate h (replicate w z)) ms =
           Inr (map (\<lambda>y. map (\<lambda>i. f (cellIndex invert w i) y) [0..<w]) [0..<h])"
proof -
  have rng: "\<forall>(x, y, v) \<in> set ms. x < w \<and> y < h"
    using assms by auto
  from collector_cells[of "replicate h (replicate w z)" h w ms invert, OF _ _ rng]
  obtain M' where M':
    "collector invert (replicate h (replicate w z)) ms = Inr M'" "length M' = h"
    "\<forall>r \<in> set M'. length r = w"
    "\<forall>y < h. \<forall>i < w. M' ! y ! i =
        (case find (\<lambda>(x, y', v). y' = y \<and> cellIndex invert w x = i) (rev ms) of
           Some (x, y', v) \<Rightarrow> v
         | None \<Rightarrow> replicate h (replicate w z) ! y ! i)"
    by auto
  have cell: "M' ! y ! i = f (cellIndex invert w i) y" if "y < h" "i < w" for y i
  proof -
    let ?P = "\<lambda>(x, y', v). y' = y \<and> cellIndex invert w x = i"
    have "(cellIndex invert w i, y, f (cellIndex invert w i) y) \<in> set (rev ms)"
      using that assms by (auto simp: cellIndex_less)
    moreover have "?P (cellIndex invert w i, y, f (cellIndex invert w i) y)"
      using that by (simp add: cellIndex_involution)
    ultimately have "find ?P (rev ms) \<noteq> None"
      unfolding find_None_iff by blast
    then obtain x' y' v' where found: "find ?P (rev ms) = Some (x', y', v')"
      by (cases "find ?P (rev ms)") auto
    from find_Some_mem[OF found] have "?P (x', y', v')" and "(x', y', v') \<in> set ms"
      by auto
    with assms have "y' = y" "cellIndex invert w x' = i" "v' = f x' y'" "x' < w" by auto
    then have "v' = f (cellIndex invert w i) y"
      using cellIndex_involution[of x' w invert] by simp
    with M'(4) that found show ?thesis by simp
  qed
  show ?thesis
    unfolding M'(1)
  proof (rule arg_cong[where f = Inr], rule nth_equalityI)
    show "length M' = length (map (\<lambda>y. map (\<lambda>i. f (cellIndex invert w i) y) [0..<w]) [0..<h])"
      using M'(2) by simp
  next
    fix y assume "y < length M'"
    with M'(2) have y: "y < h" by simp
    with M'(2,3) have len: "length (M' ! y) = w" by simp
    show "M' ! y = map (\<lambda>y. map (\<lambda>i. f (cellIndex invert w i) y) [0..<w]) [0..<h] ! y"
      using y len cell by (intro nth_equalityI) auto
  qed
qed

section \<open>Rows of glyphs\<close>

lemma cLen_value: "cLen = 29"
  by (simp add: cLen_def ASCIIChars_def)

lemma valid_channel: "(w :: 32 word) \<le> 0xFFFF \<Longrightarrow> uint w \<le> 65535"
  by (simp add: word_le_def)

lemma valid_sum:
  assumes "valid_Color c"
  shows "uint (RGBA_r c + RGBA_g c + RGBA_b c) = channelSum c"
    and "0 \<le> channelSum c" and "channelSum c \<le> 196605"
proof -
  from assms have b: "uint (RGBA_r c) \<le> 65535" "uint (RGBA_g c) \<le> 65535" "uint (RGBA_b c) \<le> 65535"
    by (simp_all add: valid_Color_def valid_channel)
  show "0 \<le> channelSum c" by (simp add: channelSum_def)
  show "channelSum c \<le> 196605" using b by (simp add: channelSum_def)
  have "uint (RGBA_r c + RGBA_g c + RGBA_b c)
          = (uint (RGBA_r c) + uint (RGBA_g c) + uint (RGBA_b c)) mod 2 ^ 32"
    by (simp add: uint_word_ariths mod_simps)
  also have "\<dots> = uint (RGBA_r c) + uint (RGBA_g c) + uint (RGBA_b c)"
    using b by (intro mod_pos_pos_trivial) (auto intro: add_nonneg_nonneg)
  finally show "uint (RGBA_r c + RGBA_g c + RGBA_b c) = channelSum c"
    by (simp add: channelSum_def)
qed

lemma pixelIndex_valid:
  assumes "valid_Color c"
  shows "pixelIndex reverse c =
           (if RGBA_a c = 0 then 28
            else if reverse then (29 * channelSum c) div 196605
            else 29 - (29 * channelSum c) div 196605)"
proof -
  define s where "s = nat (channelSum c)"
  with valid_sum[OF assms] have s: "channelSum c = int s" "s \<le> 196605"
    by simp_all
  have "f64_trunc (f64_div (f64_of_int (uint (RGBA_r c + RGBA_g c + RGBA_b c))) CharStep)
          = (29 * channelSum c) div 196605"
    unfolding valid_sum(1)[OF assms] s(1) using s(2) by (rule step_quotient)
  then show ?thesis
    by (simp add: pixelIndex_def cLen_value Let_def)
qed

lemma pixelIndex_range:
  assumes "valid_Color c"
  shows "0 \<le> pixelIndex reverse c" and "pixelIndex reverse c \<le> 29"
proof -
  from valid_sum[OF assms] have s: "0 \<le> channelSum c" "channelSum c \<le> 196605" by simp_all
  have "(29 * channelSum c) div 196605 \<le> (29 * 196605) div 196605"
    using s by (intro zdiv_mono1) simp_all
  with s have "0 \<le> (29 * channelSum c) div 196605" "(29 * channelSum c) div 196605 \<le> 29"
    by (simp_all add: pos_imp_zdiv_nonneg_iff)
  then show "0 \<le> pixelIndex reverse c" and "pixelIndex reverse c \<le> 29"
    by (simp_all add: pixelIndex_valid[OF assms])
qed

lemma go_rem_nonneg: "0 \<le> a \<Longrightarrow> 0 < b \<Longrightarrow> go_rem a b = a mod b"
  by (cases "a = 0") (simp_all add: go_rem_def)

lemma glyphAt_range:
  assumes "0 \<le> i" and "i \<le> 29"
  shows "glyphAt i = Inr (ASCIIChars ! nat (go_rem i cLen))"
proof -
  have "go_rem i cLen = i mod 29" using assms by (simp add: go_rem_nonneg cLen_value)
  then show ?thesis by (simp add: glyphAt_def cLen_value)
qed

lemma glyphAt_valid: "valid_Color c \<Longrightarrow> glyphAt (pixelIndex reverse c) = Inr (glyph reverse c)"
  by (simp add: glyphAt_range pixelIndex_range glyph_def glyphIndex_def)

lemma collect_results_Inr: "collect_results (map (\<lambda>x. Inr (g x)) xs) = Inr (map g xs)"
  by (induction xs) simp_all

lemma collect_results_cong:
  assumes "\<And>x. x \<in> set xs \<Longrightarrow> f x = Inr (g x)"
  shows "collect_results (map f xs) = Inr (map g xs)"
proof -
  have "map f xs = map (\<lambda>x. Inr (g x)) xs" using assms by simp
  then show ?thesis by (simp only: collect_results_Inr)
qed

lemma convertRow_valid:
  assumes "valid_Image img" and "y < Max_Y img"
  shows "convertRow img y reverse =
           Inr (map (\<lambda>x. \<lparr>pc_x = x, pc_y = y, pc_char = glyph reverse (At img x y)\<rparr>) [0..<Max_X img])"
  unfolding convertRow_def
proof (rule collect_results_cong)
  fix x assume "x \<in> set [0..<Max_X img]"
  with assms have "valid_Color (At img x y)" by (simp add: valid_Image_def)
  then show "(case glyphAt (pixelIndex reverse (At img x y)) of
               Inl e \<Rightarrow> Inl e
             | Inr ch \<Rightarrow> Inr \<lparr>pc_x = x, pc_y = y, pc_char = ch\<rparr>)
           = Inr \<lparr>pc_x = x, pc_y = y, pc_char = glyph reverse (At img x y)\<rparr>"
    by (simp add: glyphAt_valid)
qed

lemma convertRowColour_valid:
  assumes "valid_Image img" and "y < Max_Y img"
  shows "convertRowColour img y reverse =
           Inr (map (\<lambda>x. \<lparr>pc_x = x, pc_y = y, pc_char = glyph reverse (At img x y),
                          pc_c = FromColor (At img x y)\<rparr>) [0..<Max_X img])"
  unfolding convertRowColour_def
proof (rule collect_results_cong)
  fix x assume "x \<in> set [0..<Max_X img]"
  with assms have "valid_Color (At img x y)" by (simp add: valid_Image_def)
  then show "(let c = At img x y
              in case glyphAt (pixelIndex reverse c) of
                   Inl e \<Rightarrow> Inl e
                 | Inr ch \<Rightarrow> Inr \<lparr>pc_x = x, pc_y = y, pc_char = ch, pc_c = FromColor c\<rparr>)
           = Inr \<lparr>pc_x = x, pc_y = y, pc_char = glyph reverse (At img x y),
                   pc_c = FromColor (At img x y)\<rparr>"
    by (simp add: glyphAt_valid Let_def)
qed

lemma ImgToASCII_matrix_valid:
  assumes "valid_Image img"
  shows "ImgToASCII_matrix img negative invert =
           Inr (map (\<lambda>y. map (\<lambda>i. glyph negative (At img (cellIndex invert (Max_X img) i) y))
                           [0..<Max_X img]) [0..<Max_Y img])"
proof -
  let ?mk = "\<lambda>x y. \<lparr>pc_x = x, pc_y = y, pc_char = glyph negative (At img x y)\<rparr>"
  have rows: "collect_results (map (\<lambda>y. convertRow img y negative) [0..<Max_Y img])
                = Inr (map (\<lambda>y. map (\<lambda>x. ?mk x y) [0..<Max_X img]) [0..<Max_Y img])"
    by (rule collect_results_cong) (simp add: convertRow_valid[OF assms])
  have "set (map (\<lambda>pc. (pc_x pc, pc_y pc, pc_char pc))
          (concat (map (\<lambda>y. map (\<lambda>x. ?mk x y) [0..<Max_X img]) [0..<Max_Y img])))
      = {(x, y, glyph negative (At img x y)) | x y. x < Max_X img \<and> y < Max_Y img}"
    by (auto simp: image_iff)
  then show ?thesis
    unfolding ImgToASCII_matrix_def rows by (simp add: collector_grid)
qed

lemma ImgToASCIIColoured_matrix_valid:
  assumes "valid_Image img"
  shows "ImgToASCIIColoured_matrix img negative invert =
           Inr (map (\<lambda>y. map (\<lambda>i. colourEsc (FromColor (At img (cellIndex invert (Max_X img) i) y))
                                  @ [glyph negative (At img (cellIndex invert (Max_X img) i) y)])
                           [0..<Max_X img]) [0..<Max_Y img])"
proof -
  let ?mk = "\<lambda>x y. \<lparr>pc_x = x, pc_y = y, pc_char = glyph negative (At img x y),
                      pc_c = FromColor (At img x y)\<rparr>"
  let ?f = "\<lambda>x y. colourEsc (FromColor (At img x y)) @ [glyph negative (At img x y)]"
  have rows: "collect_results (map (\<lambda>y. convertRowColour img y negative) [0..<Max_Y img])
                = Inr (map (\<lambda>y. map (\<lambda>x. ?mk x y) [0..<Max_X img]) [0..<Max_Y img])"
    by (rule collect_results_cong) (simp add: convertRowColour_valid[OF assms])
  have "set (map (\<lambda>pc. (pc_x pc, pc_y pc, colourCell pc))
          (concat (map (\<lambda>y. map (\<lambda>x. ?mk x y) [0..<Max_X img]) [0..<Max_Y img])))
      = {(x, y, ?f x y) | x y. x < Max_X img \<and> y < Max_Y img}"
    by (auto simp: image_iff colourCell_def)
  then show ?thesis
    unfolding ImgToASCIIColoured_matrix_def rows
    by (simp add: collector_grid[where f = ?f])
qed

lemma ImgToPreview_matrix_eq:
  "ImgToPreview_matrix img single =
     Inr (map (\<lambda>y. map (\<lambda>x. colourEsc (FromColor (At img x y))
                              @ (if single then runes '' '' else runes ''   ''))
                     [0..<Max_X img]) [0..<Max_Y img])"
proof -
  let ?f = "\<lambda>x y. colourEsc (FromColor (At img x y)) @ (if single then runes '' '' else runes ''   '')"
  have "set (map (\<lambda>pc. (pc_x pc, pc_y pc, previewCell single pc))
          (concat (map (\<lambda>y. rowColours img y) [0..<Max_Y img])))
      = {(x, y, ?f x y) | x y. x < Max_X img \<and> y < Max_Y img}"
    by (auto simp: image_iff previewCell_def rowColours_def)
  then have "collector False (replicate (Max_Y img) (replicate (Max_X img) []))
               (map (\<lambda>pc. (pc_x pc, pc_y pc, previewCell single pc))
                  (concat (map (\<lambda>y. rowColours img y) [0..<Max_Y img])))
             = Inr (map (\<lambda>y. map (\<lambda>i. ?f (cellIndex False (Max_X img) i) y) [0..<Max_X img])
                     [0..<Max_Y img])"
    by (rule collector_grid)
  then show ?thesis
    by (simp add: ImgToPreview_matrix_def cellIndex_def)
qed

lemma main_pixelIndex_valid:
  assumes "valid_Color c"
  shows "main_pixelIndex reverse c =
           (if RGBA_a c = 0 then 29
            else if reverse then channelSum c div 8738
            else 30 - channelSum c div 8738)"
  by (simp add: main_pixelIndex_def valid_sum(1)[OF assms] main_ASCIIChars_def main_CharStep_def
        Let_def)

lemma main_pixelIndex_range:
  assumes "valid_Color c"
  shows "0 \<le> main_pixelIndex reverse c" and "main_pixelIndex reverse c \<le> 30"
proof -
  from valid_sum[OF assms] have s: "0 \<le> channelSum c" "channelSum c \<le> 196605" by simp_all
  have "channelSum c div 8738 \<le> 196605 div 8738"
    using s by (intro zdiv_mono1) simp_all
  with s have "0 \<le> channelSum c div 8738" "channelSum c div 8738 \<le> 22"
    by (simp_all add: pos_imp_zdiv_nonneg_iff)
  then show "0 \<le> main_pixelIndex reverse c" and "main_pixelIndex reverse c \<le> 30"
    by (simp_all add: main_pixelIndex_valid[OF assms])
qed

lemma main_glyphAt_valid:
  assumes "valid_Color c"
  shows "main_glyphAt (main_pixelIndex reverse c) = Inr (main_glyph reverse c)"
proof -
  note r = main_pixelIndex_range[OF assms, of reverse]
  have "go_rem (main_pixelIndex reverse c) 30 = main_pixelIndex reverse c mod 30"
    using r by (simp add: go_rem_nonneg)
  then show ?thesis
    by (simp add: main_glyphAt_def main_glyph_def main_ASCIIChars_def)
qed

lemma main_convertRow_valid:
  assumes "valid_Image img" and "y < Max_Y img"
  shows "main_convertRow img y reverse =
           Inr (map (\<lambda>x. \<lparr>pc_x = x, pc_y = y, pc_char = main_glyph reverse (At img x y)\<rparr>)
                  [0..<Max_X img])"
  unfolding main_convertRow_def
proof (rule collect_results_cong)
  fix x assume "x \<in> set [0..<Max_X img]"
  with assms have "valid_Color (At img x y)" by (simp add: valid_Image_def)
  then show "(case main_glyphAt (main_pixelIndex reverse (At img x y)) of
               Inl e \<Rightarrow> Inl e
             | Inr ch \<Rightarrow> Inr \<lparr>pc_x = x, pc_y = y, pc_char = ch\<rparr>)
           = Inr \<lparr>pc_x = x, pc_y = y, pc_char = main_glyph reverse (At img x y)\<rparr>"
    by (simp add: main_glyphAt_valid)
qed

lemma imgToASCII_matrix_valid:
  assumes "valid_Image img"
  shows "imgToASCII_matrix reverse img =
           Inr (map (\<lambda>y. map (\<lambda>x. main_glyph reverse (At img x y)) [0..<Max_X img])
                  [0..<Max_Y img])"
proof -
  let ?mk = "\<lambda>x y. \<lparr>pc_x = x, pc_y = y, pc_char = main_glyph reverse (At img x y)\<rparr>"
  have rows: "collect_results (map (\<lambda>y. main_convertRow img y reverse) [0..<Max_Y img])
                = Inr (map (\<lambda>y. map (\<lambda>x. ?mk x y) [0..<Max_X img]) [0..<Max_Y img])"
    by (rule collect_results_cong) (simp add: main_convertRow_valid[OF assms])
  have "set (map (\<lambda>pc. (pc_x pc, pc_y pc, pc_char pc))
          (concat (map (\<lambda>y. map (\<lambda>x. ?mk x y) [0..<Max_X img]) [0..<Max_Y img])))
      = {(x, y, main_glyph reverse (At img x y)) | x y. x < Max_X img \<and> y < Max_Y img}"
    by (auto simp: image_iff)
  then show ?thesis
    unfolding imgToASCII_matrix_def rows by (simp add: collector_grid cellIndex_def)
qed

lemma collector_schedule:
  assumes "set ms = {(x, y, f x y) | x y. x < w \<and> y < h}" and "set ms' = set ms"
  shows "collector invert (replicate h (replicate w z)) ms' =
           collector invert (replicate h (replicate w z)) ms"
  using assms by (simp add: collector_grid)

section \<open>Properties of the conversion\<close>

lemma valid_Image_solid: "valid_Color c \<Longrightarrow> valid_Image (solid w h c)"
  by (simp add: valid_Image_def solid_def)

lemma ImgToASCII_valid:
  assumes "valid_Image img"
  shows "ImgToASCII img negative invert =
           Inr (Join (map (\<lambda>y. map (\<lambda>i. glyph negative (At img (cellIndex invert (Max_X img) i) y))
                                 [0..<Max_X img]) [0..<Max_Y img]) [10])"
  by (simp add: ImgToASCII_def ImgToASCII_matrix_valid[OF assms])

lemma ImgToASCIIColoured_valid:
  assumes "valid_Image img"
  shows "ImgToASCIIColoured img negative invert =
           Inr (Join (map (\<lambda>y. Join (map (\<lambda>i. colourEsc (FromColor (At img (cellIndex invert (Max_X img) i) y))
                                  @ [glyph negative (At img (cellIndex invert (Max_X img) i) y)])
                           [0..<Max_X img]) []) [0..<Max_Y img]) [10] @ runes ResetColour)"
  by (simp add: ImgToASCIIColoured_def ImgToASCIIColoured_matrix_valid[OF assms] comp_def)

text \<open>
  C10. For every pixel whose channels lie in 0 .. 65535, whatever its alpha, the index
  computed before the modulo by \<open>convertRow\<close> and \<open>convertRowColour\<close> is at least 0 and at
  most the length 29 of the slice of glyphs, so that the lookup \<open>ASCIIChars[i%cLen]\<close> does
  not panic; the same holds in the single-file program with its 30 glyphs. On an image of
  such pixels the plain and the coloured conversion return a string, with or without tone
  reversal and mirroring.
\<close>

theorem glyph_lookup_in_bounds:
  "(\<forall>c reverse. valid_Color c \<longrightarrow>
      0 \<le> pixelIndex reverse c \<and> pixelIndex reverse c \<le> cLen \<and> cLen = 29 \<and>
      0 \<le> go_rem (pixelIndex reverse c) cLen \<and>
      go_rem (pixelIndex reverse c) cLen < int (length ASCIIChars) \<and>
      (\<exists>ch. glyphAt (pixelIndex reverse c) = Inr ch) \<and>
      0 \<le> main_pixelIndex reverse c \<and>
      main_pixelIndex reverse c \<le> int (length main_ASCIIChars) \<and>
      (\<exists>ch. main_glyphAt (main_pixelIndex reverse c) = Inr ch)) \<and>
   (\<forall>img negative invert. valid_Image img \<longrightarrow>
      (\<forall>y < Max_Y img. (\<exists>pcs. convertRow img y negative = Inr pcs) \<and>
                        (\<exists>pcs. convertRowColour img y negative = Inr pcs) \<and>
                        (\<exists>pcs. main_convertRow img y negative = Inr pcs)) \<and>
      (\<exists>s. ImgToASCII img negative invert = Inr s) \<and>
      (\<exists>s. ImgToASCIIColoured img negative invert = Inr s) \<and>
      (\<exists>s. imgToASCII negative img = Inr s))"
proof (intro conjI allI impI)
  fix c reverse assume c: "valid_Color c"
  note r = pixelIndex_range[OF c, of reverse]
  show "0 \<le> pixelIndex reverse c" by (rule r)
  show "pixelIndex reverse c \<le> cLen" using r by (simp add: cLen_value)
  show "cLen = 29" by (rule cLen_value)
  have rem: "go_rem (pixelIndex reverse c) cLen = pixelIndex reverse c mod 29"
    using r by (simp add: go_rem_nonneg cLen_value)
  show "0 \<le> go_rem (pixelIndex reverse c) cLen" unfolding rem by simp
  show "go_rem (pixelIndex reverse c) cLen < int (length ASCIIChars)"
    unfolding rem by (simp add: ASCIIChars_def)
  show "\<exists>ch. glyphAt (pixelIndex reverse c) = Inr ch"
    using glyphAt_valid[OF c] by blast
  show "0 \<le> main_pixelIndex reverse c" by (rule main_pixelIndex_range[OF c])
  show "main_pixelIndex reverse c \<le> int (length main_ASCIIChars)"
    using main_pixelIndex_range(2)[OF c, of reverse] by (simp add: main_ASCIIChars_def)
  show "\<exists>ch. main_glyphAt (main_pixelIndex reverse c) = Inr ch"
    using main_glyphAt_valid[OF c] by blast
next
  fix img negative invert y assume "valid_Image img" "y < Max_Y img"
  then show "\<exists>pcs. convertRow img y negative = Inr pcs"
    and "\<exists>pcs. convertRowColour img y negative = Inr pcs"
    and "\<exists>pcs. main_convertRow img y negative = Inr pcs"
    by (simp_all add: convertRow_valid convertRowColour_valid main_convertRow_valid)
next
  fix img negative invert assume img: "valid_Image img"
  show "\<exists>s. ImgToASCII img negative invert = Inr s"
    by (simp add: ImgToASCII_valid[OF img])
  show "\<exists>s. ImgToASCIIColoured img negative invert = Inr s"
    by (simp add: ImgToASCIIColoured_valid[OF img])
  show "\<exists>s. imgToASCII negative img = Inr s"
    by (simp add: imgToASCII_def imgToASCII_matrix_valid[OF img])
qed

theorem glyph_lookup_in_bounds_witness:
  "valid_Color \<lparr>RGBA_r = 0xFFFF, RGBA_g = 0xFFFF, RGBA_b = 0xFFFF, RGBA_a = 0xFFFF\<rparr> \<and>
   0 \<le> pixelIndex False \<lparr>RGBA_r = 0xFFFF, RGBA_g = 0xFFFF, RGBA_b = 0xFFFF, RGBA_a = 0xFFFF\<rparr> \<and>
   pixelIndex False \<lparr>RGBA_r = 0xFFFF, RGBA_g = 0xFFFF, RGBA_b = 0xFFFF, RGBA_a = 0xFFFF\<rparr> \<le> cLen \<and>
   (\<exists>ch. glyphAt (pixelIndex False
            \<lparr>RGBA_r = 0xFFFF, RGBA_g = 0xFFFF, RGBA_b = 0xFFFF, RGBA_a = 0xFFFF\<rparr>) = Inr ch) \<and>
   valid_Image (solid 2 1 \<lparr>RGBA_r = 0xFFFF, RGBA_g = 0, RGBA_b = 0, RGBA_a = 0xFFFF\<rparr>) \<and>
   (0::nat) < Max_Y (solid 2 1 \<lparr>RGBA_r = 0xFFFF, RGBA_g = 0, RGBA_b = 0, RGBA_a = 0xFFFF\<rparr>) \<and>
   (\<exists>pcs. convertRow (solid 2 1 \<lparr>RGBA_r = 0xFFFF, RGBA_g = 0, RGBA_b = 0, RGBA_a = 0xFFFF\<rparr>)
            0 False = Inr pcs) \<and>
   (\<exists>s. ImgToASCII (solid 2 1 \<lparr>RGBA_r = 0xFFFF, RGBA_g = 0, RGBA_b = 0, RGBA_a = 0xFFFF\<rparr>)
            False True = Inr s)"
proof -
  let ?w = "\<lparr>RGBA_r = 0xFFFF, RGBA_g = 0xFFFF, RGBA_b = 0xFFFF, RGBA_a = 0xFFFF\<rparr>"
  let ?img = "solid 2 1 \<lparr>RGBA_r = 0xFFFF, RGBA_g = 0, RGBA_b = 0, RGBA_a = 0xFFFF\<rparr>"
  have v: "valid_Color ?w" by (simp add: valid_Color_def)
  have vi: "valid_Image ?img" by (simp add: valid_Image_def solid_def valid_Color_def)
  have y: "(0::nat) < Max_Y ?img" by (simp add: solid_def)
  note px = glyph_lookup_in_bounds[THEN conjunct1, rule_format, OF v, of False]
  note im = glyph_lookup_in_bounds[THEN conjunct2, rule_format, OF vi, of False True]
  from im have row: "\<exists>pcs. convertRow ?img 0 False = Inr pcs"
    using y by blast
  from v vi y px im row show ?thesis by blast
qed

lemma matrix_cell:
  assumes "valid_Image img" and "x < Max_X img" and "y < Max_Y img"
  shows "\<exists>M. ImgToASCII_matrix img negative invert = Inr M \<and>
             M ! y ! cellIndex invert (Max_X img) x = glyph negative (At img x y)"
  using assms
  by (simp add: ImgToASCII_matrix_valid cellIndex_less cellIndex_involution)

lemma coloured_matrix_cell:
  assumes "valid_Image img" and "x < Max_X img" and "y < Max_Y img"
  shows "\<exists>M. ImgToASCIIColoured_matrix img negative invert = Inr M \<and>
             M ! y ! cellIndex invert (Max_X img) x =
               colourEsc (FromColor (At img x y)) @ [glyph negative (At img x y)]"
  using assms
  by (simp add: ImgToASCIIColoured_matrix_valid cellIndex_less cellIndex_involution)

lemma transparent_index: "RGBA_a c = 0 \<Longrightarrow> pixelIndex reverse c = 28"
  by (simp add: pixelIndex_def cLen_value)

lemma transparent_glyph: "RGBA_a c = 0 \<Longrightarrow> glyph reverse c = 32"
  by (simp add: glyph_def glyphIndex_def transparent_index go_rem_nonneg cLen_value
        ASCIIChars_def)

text \<open>
  C3. A pixel with alpha 0 gets the last glyph of the slice, the space at index 28,
  whatever the tone flag: the index is set to \<open>cLen - 1\<close> before the lookup. On an image of
  pixels in range, \<open>convertRow\<close> and \<open>convertRowColour\<close> send the space for such a pixel,
  and the matrices of the plain and of the coloured conversion hold it in the cell of the
  pixel, mirrored or not; the coloured cell has no escape sequence in front.
\<close>

theorem transparent_pixel_is_space:
  "(\<forall>c reverse. RGBA_a c = 0 \<longrightarrow>
      pixelIndex reverse c = cLen - 1 \<and> glyphIndex reverse c = 28 \<and>
      glyphAt (pixelIndex reverse c) = Inr 32 \<and> ASCIIChars ! 28 = 32 \<and>
      length ASCIIChars = 29) \<and>
   (\<forall>img reverse invert x y.
      valid_Image img \<and> x < Max_X img \<and> y < Max_Y img \<and> RGBA_a (At img x y) = 0 \<longrightarrow>
      (\<exists>pcs. convertRow img y reverse = Inr pcs \<and> pc_char (pcs ! x) = 32) \<and>
      (\<exists>pcs. convertRowColour img y reverse = Inr pcs \<and> pc_char (pcs ! x) = 32) \<and>
      (\<exists>M. ImgToASCII_matrix img reverse invert = Inr M \<and>
            M ! y ! cellIndex invert (Max_X img) x = 32) \<and>
      (\<exists>M. ImgToASCIIColoured_matrix img reverse invert = Inr M \<and>
            M ! y ! cellIndex invert (Max_X img) x = [32]))"
proof (intro conjI allI impI)
  fix c :: Color and reverse :: bool assume a: "RGBA_a c = 0"
  show "pixelIndex reverse c = cLen - 1" using a by (simp add: pixelIndex_def)
  show "glyphIndex reverse c = 28"
    using a by (simp add: glyphIndex_def transparent_index go_rem_nonneg cLen_value)
  show "glyphAt (pixelIndex reverse c) = Inr 32"
    using a by (simp add: transparent_index glyphAt_range go_rem_nonneg cLen_value ASCIIChars_def)
  show "ASCIIChars ! 28 = 32" by (simp add: ASCIIChars_def)
  show "length ASCIIChars = 29" by (simp add: ASCIIChars_def)
next
  fix img reverse invert x y
  assume h: "valid_Image img \<and> x < Max_X img \<and> y < Max_Y img \<and> RGBA_a (At img x y) = 0"
  then have g: "glyph reverse (At img x y) = 32" by (simp add: transparent_glyph)
  from h have c: "FromColor (At img x y) = None" by (simp add: FromColor_def)
  show "\<exists>pcs. convertRow img y reverse = Inr pcs \<and> pc_char (pcs ! x) = 32"
    using h g by (simp add: convertRow_valid)
  show "\<exists>pcs. convertRowColour img y reverse = Inr pcs \<and> pc_char (pcs ! x) = 32"
    using h g by (simp add: convertRowColour_valid)
  show "\<exists>M. ImgToASCII_matrix img reverse invert = Inr M \<and>
            M ! y ! cellIndex invert (Max_X img) x = 32"
    using matrix_cell[of img x y reverse invert] h g by simp
  show "\<exists>M. ImgToASCIIColoured_matrix img reverse invert = Inr M \<and>
            M ! y ! cellIndex invert (Max_X img) x = [32]"
    using coloured_matrix_cell[of img x y reverse invert] h g c by (simp add: colourEsc_def)
qed

theorem transparent_pixel_is_space_witness:
  "RGBA_a \<lparr>RGBA_r = 0, RGBA_g = 0, RGBA_b = 0, RGBA_a = 0\<rparr> = 0 \<and>
   glyphAt (pixelIndex True \<lparr>RGBA_r = 0, RGBA_g = 0, RGBA_b = 0, RGBA_a = 0\<rparr>) = Inr 32 \<and>
   glyphAt (pixelIndex False \<lparr>RGBA_r = 0, RGBA_g = 0, RGBA_b = 0, RGBA_a = 0\<rparr>) = Inr 32 \<and>
   valid_Image (solid 3 2 \<lparr>RGBA_r = 0, RGBA_g = 0, RGBA_b = 0, RGBA_a = 0\<rparr>) \<and>
   (0::nat) < Max_X (solid 3 2 \<lparr>RGBA_r = 0, RGBA_g = 0, RGBA_b = 0, RGBA_a = 0\<rparr>) \<and>
   (1::nat) < Max_Y (solid 3 2 \<lparr>RGBA_r = 0, RGBA_g = 0, RGBA_b = 0, RGBA_a = 0\<rparr>) \<and>
   RGBA_a (At (solid 3 2 \<lparr>RGBA_r = 0, RGBA_g = 0, RGBA_b = 0, RGBA_a = 0\<rparr>) 0 1) = 0 \<and>
   (\<exists>M. ImgToASCII_matrix (solid 3 2 \<lparr>RGBA_r = 0, RGBA_g = 0, RGBA_b = 0, RGBA_a = 0\<rparr>)
           False True = Inr M \<and> M ! 1 ! 2 = 32) \<and>
   (\<exists>M. ImgToASCIIColoured_matrix (solid 3 2 \<lparr>RGBA_r = 0, RGBA_g = 0, RGBA_b = 0, RGBA_a = 0\<rparr>)
           True False = Inr M \<and> M ! 1 ! 0 = [32])"
proof -
  let ?t = "\<lparr>RGBA_r = 0, RGBA_g = 0, RGBA_b = 0, RGBA_a = 0\<rparr>"
  let ?img = "solid 3 2 ?t"
  have a: "RGBA_a ?t = 0" by simp
  have h: "valid_Image ?img \<and> 0 < Max_X ?img \<and> 1 < Max_Y ?img \<and> RGBA_a (At ?img 0 1) = 0"
    by (simp add: valid_Image_def solid_def valid_Color_def)
  note px = transparent_pixel_is_space[THEN conjunct1, rule_format, OF a]
  note im1 = transparent_pixel_is_space[THEN conjunct2, rule_format, OF h, of False True]
  note im2 = transparent_pixel_is_space[THEN conjunct2, rule_format, OF h, of True False]
  have i1: "cellIndex True (Max_X ?img) 0 = 2" by (simp add: cellIndex_def solid_def)
  have i2: "cellIndex False (Max_X ?img) 0 = 0" by (simp add: cellIndex_def)
  from im1 have m1: "\<exists>M. ImgToASCII_matrix ?img False True = Inr M \<and> M ! 1 ! 2 = 32"
    unfolding i1 by blast
  from im2 have m2: "\<exists>M. ImgToASCIIColoured_matrix ?img True False = Inr M \<and> M ! 1 ! 0 = [32]"
    unfolding i2 by blast
  from a h px[of True] px[of False] m1 m2 show ?thesis by blast
qed

lemma rev_map_upt: "rev (map f [0..<w]) = map (\<lambda>i. f (w - i - 1)) [0..<w]"
  by (rule nth_equalityI) (simp_all add: rev_nth)

lemma mirrored_rows:
  "map rev (map (\<lambda>y. map (\<lambda>i. f (cellIndex False w i) y) [0..<w]) [0..<h])
     = map (\<lambda>y. map (\<lambda>i. f (cellIndex True w i) y) [0..<w]) [0..<h]"
  by (simp add: rev_map_upt cellIndex_def comp_def)

lemma mirrored_pair:
  assumes "map rev M0 = M1"
  shows "\<exists>M M'. (Inr M0 :: panic + 'a list list) = Inr M \<and>
           (Inr M1 :: panic + 'a list list) = Inr M' \<and> M' = map rev M \<and> map rev M' = M"
proof -
  have "map rev M1 = M0" unfolding assms[symmetric] by (simp add: comp_def)
  with assms show ?thesis by simp
qed

text \<open>
  C7. With the mirror flag set, the glyph of the pixel in column \<open>x\<close> of a row of width
  \<open>W\<close> is stored in column \<open>W - x - 1\<close> of the matrix, in \<open>ImgToASCII\<close> as in
  \<open>ImgToASCIIColoured\<close> (there together with the escape sequence of the pixel's colour).
  The index computation applied twice gives \<open>x\<close> back; each row of the mirrored matrix is
  the reverse of the row of the matrix that is not mirrored, and mirroring the rows again
  gives that matrix back.
\<close>

theorem mirror_placement:
  "(\<forall>img negative x y.
      valid_Image img \<and> x < Max_X img \<and> y < Max_Y img \<longrightarrow>
      (\<exists>M. ImgToASCII_matrix img negative True = Inr M \<and>
            M ! y ! (Max_X img - x - 1) = glyph negative (At img x y)) \<and>
      (\<exists>M. ImgToASCIIColoured_matrix img negative True = Inr M \<and>
            M ! y ! (Max_X img - x - 1) =
              colourEsc (FromColor (At img x y)) @ [glyph negative (At img x y)]) \<and>
      mirrorIndex (Max_X img) x = int (Max_X img - x - 1) \<and>
      mirrorIndex (Max_X img) (nat (mirrorIndex (Max_X img) x)) = int x) \<and>
   (\<forall>img negative.
      valid_Image img \<longrightarrow>
      (\<exists>M M'. ImgToASCII_matrix img negative False = Inr M \<and>
               ImgToASCII_matrix img negative True = Inr M' \<and>
               M' = map rev M \<and> map rev M' = M) \<and>
      (\<exists>M M'. ImgToASCIIColoured_matrix img negative False = Inr M \<and>
               ImgToASCIIColoured_matrix img negative True = Inr M' \<and>
               M' = map rev M \<and> map rev M' = M))"
proof (intro conjI allI impI)
  fix img negative x y
  assume h: "valid_Image img \<and> x < Max_X img \<and> y < Max_Y img"
  have i: "cellIndex True (Max_X img) x = Max_X img - x - 1" by (simp add: cellIndex_def)
  show "\<exists>M. ImgToASCII_matrix img negative True = Inr M \<and>
            M ! y ! (Max_X img - x - 1) = glyph negative (At img x y)"
    using matrix_cell[of img x y negative True] h unfolding i by simp
  show "\<exists>M. ImgToASCIIColoured_matrix img negative True = Inr M \<and>
            M ! y ! (Max_X img - x - 1) =
              colourEsc (FromColor (At img x y)) @ [glyph negative (At img x y)]"
    using coloured_matrix_cell[of img x y negative True] h unfolding i by simp
  show "mirrorIndex (Max_X img) x = int (Max_X img - x - 1)"
    using h by (auto simp: mirrorIndex_def)
  show "mirrorIndex (Max_X img) (nat (mirrorIndex (Max_X img) x)) = int x"
    using h by (auto simp: mirrorIndex_def)
next
  fix img negative assume v: "valid_Image img"
  let ?g = "\<lambda>x y. glyph negative (At img x y)"
  have "map rev (map (\<lambda>y. map (\<lambda>i. ?g (cellIndex False (Max_X img) i) y) [0..<Max_X img])
                   [0..<Max_Y img])
          = map (\<lambda>y. map (\<lambda>i. ?g (cellIndex True (Max_X img) i) y) [0..<Max_X img])
                   [0..<Max_Y img]"
    by (rule mirrored_rows)
  then show "\<exists>M M'. ImgToASCII_matrix img negative False = Inr M \<and>
               ImgToASCII_matrix img negative True = Inr M' \<and>
               M' = map rev M \<and> map rev M' = M"
    unfolding ImgToASCII_matrix_valid[OF v] by (rule mirrored_pair)
next
  fix img negative assume v: "valid_Image img"
  let ?g = "\<lambda>x y. colourEsc (FromColor (At img x y)) @ [glyph negative (At img x y)]"
  have "map rev (map (\<lambda>y. map (\<lambda>i. ?g (cellIndex False (Max_X img) i) y) [0..<Max_X img])
                   [0..<Max_Y img])
          = map (\<lambda>y. map (\<lambda>i. ?g (cellIndex True (Max_X img) i) y) [0..<Max_X img])
                   [0..<Max_Y img]"
    by (rule mirrored_rows)
  then show "\<exists>M M'. ImgToASCIIColoured_matrix img negative False = Inr M \<and>
               ImgToASCIIColoured_matrix img negative True = Inr M' \<and>
               M' = map rev M \<and> map rev M' = M"
    unfolding ImgToASCIIColoured_matrix_valid[OF v] by (rule mirrored_pair)
qed

theorem mirror_placement_witness:
  "valid_Image (leftColumn 3 2 \<lparr>RGBA_r = 0, RGBA_g = 0, RGBA_b = 0, RGBA_a = 0\<rparr>
                  \<lparr>RGBA_r = 0, RGBA_g = 0, RGBA_b = 0, RGBA_a = 0xFFFF\<rparr>) \<and>
   (0::nat) < Max_X (leftColumn 3 2 \<lparr>RGBA_r = 0, RGBA_g = 0, RGBA_b = 0, RGBA_a = 0\<rparr>
                  \<lparr>RGBA_r = 0, RGBA_g = 0, RGBA_b = 0, RGBA_a = 0xFFFF\<rparr>) \<and>
   (0::nat) < Max_Y (leftColumn 3 2 \<lparr>RGBA_r = 0, RGBA_g = 0, RGBA_b = 0, RGBA_a = 0\<rparr>
                  \<lparr>RGBA_r = 0, RGBA_g = 0, RGBA_b = 0, RGBA_a = 0xFFFF\<rparr>) \<and>
   (\<exists>M. ImgToASCII_matrix (leftColumn 3 2 \<lparr>RGBA_r = 0, RGBA_g = 0, RGBA_b = 0, RGBA_a = 0\<rparr>
                  \<lparr>RGBA_r = 0, RGBA_g = 0, RGBA_b = 0, RGBA_a = 0xFFFF\<rparr>) False True = Inr M \<and>
         M ! 0 ! 2 = 32) \<and>
   (\<exists>M. ImgToASCIIColoured_matrix (leftColumn 3 2 \<lparr>RGBA_r = 0, RGBA_g = 0, RGBA_b = 0, RGBA_a = 0\<rparr>
                  \<lparr>RGBA_r = 0, RGBA_g = 0, RGBA_b = 0, RGBA_a = 0xFFFF\<rparr>) False True = Inr M \<and>
         M ! 0 ! 2 = [32]) \<and>
   mirrorIndex 3 0 = 2 \<and> mirrorIndex 3 (nat (mirrorIndex 3 0)) = 0 \<and>
   (\<exists>M M'. ImgToASCII_matrix (leftColumn 3 2 \<lparr>RGBA_r = 0, RGBA_g = 0, RGBA_b = 0, RGBA_a = 0\<rparr>
                  \<lparr>RGBA_r = 0, RGBA_g = 0, RGBA_b = 0, RGBA_a = 0xFFFF\<rparr>) False False = Inr M \<and>
            ImgToASCII_matrix (leftColumn 3 2 \<lparr>RGBA_r = 0, RGBA_g = 0, RGBA_b = 0, RGBA_a = 0\<rparr>
                  \<lparr>RGBA_r = 0, RGBA_g = 0, RGBA_b = 0, RGBA_a = 0xFFFF\<rparr>) False True = Inr M' \<and>
            M' = map rev M \<and> map rev M' = M)"
proof -
  let ?t = "\<lparr>RGBA_r = 0, RGBA_g = 0, RGBA_b = 0, RGBA_a = 0\<rparr>"
  let ?img = "leftColumn 3 2 ?t \<lparr>RGBA_r = 0, RGBA_g = 0, RGBA_b = 0, RGBA_a = 0xFFFF\<rparr>"
  have h: "valid_Image ?img \<and> 0 < Max_X ?img \<and> 0 < Max_Y ?img"
    by (simp add: valid_Image_def leftColumn_def valid_Color_def)
  then have v: "valid_Image ?img" by simp
  note cell = mirror_placement[THEN conjunct1, rule_format, OF h, of False]
  note rows = mirror_placement[THEN conjunct2, rule_format, OF v, of False]
  have w: "Max_X ?img = 3" by (simp add: leftColumn_def)
  have p: "At ?img 0 0 = ?t" by (simp add: leftColumn_def)
  have g: "glyph False ?t = 32" by (simp add: transparent_glyph)
  have e: "colourEsc (FromColor ?t) = []" by (simp add: colourEsc_def FromColor_def)
  from cell have c1: "\<exists>M. ImgToASCII_matrix ?img False True = Inr M \<and> M ! 0 ! 2 = 32"
    by (simp add: w p g)
  from cell have c2: "\<exists>M. ImgToASCIIColoured_matrix ?img False True = Inr M \<and> M ! 0 ! 2 = [32]"
    by (simp add: w p g e)
  from cell have c3: "mirrorIndex 3 0 = 2"
    by (simp add: w)
  have c4: "mirrorIndex 3 (nat (mirrorIndex 3 0)) = 0"
    by (simp add: mirrorIndex_def)
  from rows have c5: "\<exists>M M'. ImgToASCII_matrix ?img False False = Inr M \<and>
            ImgToASCII_matrix ?img False True = Inr M' \<and> M' = map rev M \<and> map rev M' = M"
    by (rule conjunct1)
  from h have h1: "valid_Image ?img" and h2: "0 < Max_X ?img" and h3: "0 < Max_Y ?img"
    by simp_all
  show ?thesis by (intro conjI h1 h2 h3 c1 c2 c3 c4 c5)
qed

lemma splitLines_line: "10 \<notin> set l \<Longrightarrow> splitLines l = [l]"
  by (induction l) auto

lemma splitLines_append:
  "10 \<notin> set l \<Longrightarrow> splitLines (l @ 10 # s) = l # splitLines s"
  by (induction l) auto

lemma splitLines_Join:
  assumes "rows \<noteq> []" and "\<forall>r \<in> set rows. 10 \<notin> set r"
  shows "splitLines (Join rows [10]) = rows"
  using assms
proof (induction rows "[10::nat]" rule: Join.induct)
  case 1
  then show ?case by simp
next
  case (2 s)
  then show ?case by (simp add: splitLines_line)
next
  case (3 s t ts)
  then show ?case by (simp add: splitLines_append)
qed

lemma TrimRight_space_decomp: "\<exists>k. s = TrimRight_space s @ replicate k 32"
proof -
  have "rev s = takeWhile (\<lambda>ch. ch = 32) (rev s) @ dropWhile (\<lambda>ch. ch = 32) (rev s)"
    by simp
  moreover have "takeWhile (\<lambda>ch. ch = 32) (rev s)
                   = replicate (length (takeWhile (\<lambda>ch. ch = 32) (rev s))) 32"
    by (rule replicate_length_same[symmetric]) (auto dest: set_takeWhileD)
  ultimately have "rev s = replicate (length (takeWhile (\<lambda>ch. ch = 32) (rev s))) 32
                            @ dropWhile (\<lambda>ch. ch = 32) (rev s)"
    by simp
  then have "rev (rev s) = rev (replicate (length (takeWhile (\<lambda>ch. ch = 32) (rev s))) 32
                            @ dropWhile (\<lambda>ch. ch = 32) (rev s))"
    by (rule arg_cong)
  then show ?thesis
    by (auto simp: TrimRight_space_def)
qed

lemma TrimRight_space_last: "TrimRight_space s = [] \<or> last (TrimRight_space s) \<noteq> 32"
proof (cases "dropWhile (\<lambda>ch. ch = 32) (rev s)")
  case Nil
  then show ?thesis by (simp add: TrimRight_space_def)
next
  case (Cons a as)
  then have "a \<noteq> 32" using hd_dropWhile[of "\<lambda>ch. ch = 32" "rev s"] by auto
  with Cons show ?thesis by (simp add: TrimRight_space_def)
qed

lemma TrimRight_space_set: "set (TrimRight_space s) \<subseteq> set s"
  by (auto simp: TrimRight_space_def dest: set_dropWhileD)

lemma glyph_not_newline: "valid_Color c \<Longrightarrow> glyph reverse c \<noteq> 10"
proof -
  assume c: "valid_Color c"
  note r = pixelIndex_range[OF c, of reverse]
  have "go_rem (pixelIndex reverse c) cLen = pixelIndex reverse c mod 29"
    using r by (simp add: go_rem_nonneg cLen_value)
  then have "nat (glyphIndex reverse c) < length ASCIIChars"
    by (simp add: glyphIndex_def ASCIIChars_def)
  then have "glyph reverse c \<in> set ASCIIChars"
    unfolding glyph_def by (rule nth_mem)
  then show ?thesis by (auto simp: ASCIIChars_def)
qed

lemma main_glyph_not_newline: "valid_Color c \<Longrightarrow> main_glyph reverse c \<noteq> 10"
proof -
  assume c: "valid_Color c"
  note r = main_pixelIndex_range[OF c, of reverse]
  have "go_rem (main_pixelIndex reverse c) 30 = main_pixelIndex reverse c mod 30"
    using r by (simp add: go_rem_nonneg)
  then have "nat (go_rem (main_pixelIndex reverse c) (int (length main_ASCIIChars)))
               < length main_ASCIIChars"
    by (simp add: main_ASCIIChars_def)
  then have "main_glyph reverse c \<in> set main_ASCIIChars"
    unfolding main_glyph_def by (rule nth_mem)
  then show ?thesis by (auto simp: main_ASCIIChars_def)
qed

text \<open>
  C9. On an image of pixels in range with at least one row, the string of
  \<open>convert.ImgToASCII\<close> has one line for each row, and the line is the row of glyphs as
  it is, trailing spaces included: every line has exactly as many runes as the row has
  pixels. The string of \<open>imgToASCII\<close> of the single-file program has the rows with their
  trailing spaces removed (\<open>strings.TrimRight(string(r), " ")\<close>): no line of it ends in a
  space, and a row is its line followed by spaces only.
\<close>

theorem trailing_spaces_kept_or_trimmed:
  "(\<forall>img negative invert.
      valid_Image img \<and> 0 < Max_Y img \<longrightarrow>
      (\<exists>out. ImgToASCII img negative invert = Inr out \<and>
         splitLines out =
           map (\<lambda>y. map (\<lambda>i. glyph negative (At img (cellIndex invert (Max_X img) i) y))
                       [0..<Max_X img]) [0..<Max_Y img] \<and>
         length (splitLines out) = Max_Y img \<and>
         (\<forall>l \<in> set (splitLines out). length l = Max_X img)) \<and>
      (\<exists>out. imgToASCII negative img = Inr out \<and>
         splitLines out =
           map (\<lambda>y. TrimRight_space (map (\<lambda>x. main_glyph negative (At img x y)) [0..<Max_X img]))
             [0..<Max_Y img] \<and>
         (\<forall>l \<in> set (splitLines out). l = [] \<or> last l \<noteq> 32))) \<and>
   (\<forall>s. (\<exists>k. s = TrimRight_space s @ replicate k 32) \<and>
        (TrimRight_space s = [] \<or> last (TrimRight_space s) \<noteq> 32))"
proof (intro conjI allI impI)
  fix img negative invert
  assume h: "valid_Image img \<and> 0 < Max_Y img"
  then have v: "valid_Image img" and ne: "[0..<Max_Y img] \<noteq> []" by simp_all
  let ?rows = "map (\<lambda>y. map (\<lambda>i. glyph negative (At img (cellIndex invert (Max_X img) i) y))
                       [0..<Max_X img]) [0..<Max_Y img]"
  have "\<forall>r \<in> set ?rows. 10 \<notin> set r"
    using v by (auto simp: valid_Image_def glyph_not_newline cellIndex_less)
  with ne have "splitLines (Join ?rows [10]) = ?rows"
    by (intro splitLines_Join) simp_all
  then show "\<exists>out. ImgToASCII img negative invert = Inr out \<and>
         splitLines out = ?rows \<and> length (splitLines out) = Max_Y img \<and>
         (\<forall>l \<in> set (splitLines out). length l = Max_X img)"
    unfolding ImgToASCII_valid[OF v] by auto
next
  fix img negative invert
  assume h: "valid_Image img \<and> 0 < Max_Y img"
  then have v: "valid_Image img" and ne: "[0..<Max_Y img] \<noteq> []" by simp_all
  let ?rows = "map (\<lambda>y. TrimRight_space (map (\<lambda>x. main_glyph negative (At img x y))
                       [0..<Max_X img])) [0..<Max_Y img]"
  have "10 \<notin> set (TrimRight_space (map (\<lambda>x. main_glyph negative (At img x y)) [0..<Max_X img]))"
    if "y < Max_Y img" for y
  proof -
    have "10 \<notin> set (map (\<lambda>x. main_glyph negative (At img x y)) [0..<Max_X img])"
      using v that by (auto simp: valid_Image_def main_glyph_not_newline)
    then show ?thesis using TrimRight_space_set by blast
  qed
  then have "\<forall>r \<in> set ?rows. 10 \<notin> set r" by auto
  with ne have "splitLines (Join ?rows [10]) = ?rows"
    by (intro splitLines_Join) simp_all
  moreover have "\<forall>l \<in> set ?rows. l = [] \<or> last l \<noteq> 32"
    using TrimRight_space_last by auto
  ultimately show "\<exists>out. imgToASCII negative img = Inr out \<and>
         splitLines out = ?rows \<and> (\<forall>l \<in> set (splitLines out). l = [] \<or> last l \<noteq> 32)"
    by (simp add: imgToASCII_def imgToASCII_matrix_valid[OF v] comp_def)
next
  fix s show "\<exists>k. s = TrimRight_space s @ replicate k 32"
    by (rule TrimRight_space_decomp)
  show "TrimRight_space s = [] \<or> last (TrimRight_space s) \<noteq> 32"
    by (rule TrimRight_space_last)
qed

theorem trailing_spaces_kept_or_trimmed_witness:
  "valid_Image (solid 2 2 \<lparr>RGBA_r = 0, RGBA_g = 0, RGBA_b = 0, RGBA_a = 0\<rparr>) \<and>
   (0::nat) < Max_Y (solid 2 2 \<lparr>RGBA_r = 0, RGBA_g = 0, RGBA_b = 0, RGBA_a = 0\<rparr>) \<and>
   (\<exists>out. ImgToASCII (solid 2 2 \<lparr>RGBA_r = 0, RGBA_g = 0, RGBA_b = 0, RGBA_a = 0\<rparr>) False False
            = Inr out \<and> splitLines out = [[32, 32], [32, 32]]) \<and>
   (\<exists>out. imgToASCII False (solid 2 2 \<lparr>RGBA_r = 0, RGBA_g = 0, RGBA_b = 0, RGBA_a = 0\<rparr>)
            = Inr out \<and> splitLines out = [[], []])"
proof -
  let ?t = "\<lparr>RGBA_r = 0, RGBA_g = 0, RGBA_b = 0, RGBA_a = 0\<rparr>"
  let ?img = "solid 2 2 ?t"
  have h: "valid_Image ?img \<and> 0 < Max_Y ?img"
    by (simp add: valid_Image_def solid_def valid_Color_def)
  note T = trailing_spaces_kept_or_trimmed[THEN conjunct1, rule_format, OF h, of False False]
  have d: "Max_X ?img = 2" "Max_Y ?img = 2" "At ?img = (\<lambda>x y. ?t)"
    by (simp_all add: solid_def)
  have g: "glyph False ?t = 32" by (simp add: transparent_glyph)
  have mg: "main_glyph False ?t = 32"
    by (simp add: main_glyph_def main_pixelIndex_def main_ASCIIChars_def go_rem_nonneg)
  have tr: "TrimRight_space [32, 32] = []" by (simp add: TrimRight_space_def)
  have u: "[0..<2] = [0, Suc 0]" by (simp add: upt_rec)
  from T have c1: "\<exists>out. ImgToASCII ?img False False = Inr out \<and>
                     splitLines out = [[32, 32], [32, 32]]"
    unfolding d g u by auto
  from T have c2: "\<exists>out. imgToASCII False ?img = Inr out \<and> splitLines out = [[], []]"
    unfolding d mg u by (auto simp: tr)
  from h have h1: "valid_Image ?img" and h2: "0 < Max_Y ?img" by simp_all
  show ?thesis by (intro conjI h1 h2 c1 c2)
qed

lemma glyphIndex_valid:
  assumes "valid_Color c"
  shows "glyphIndex reverse c = pixelIndex reverse c mod 29"
  using pixelIndex_range[OF assms, of reverse]
  by (simp add: glyphIndex_def go_rem_nonneg cLen_value)

lemma pixelIndex_monotone:
  assumes "valid_Color c1" and "valid_Color c2"
    and "RGBA_a c1 \<noteq> 0" and "RGBA_a c2 \<noteq> 0"
    and "channelSum c2 < channelSum c1"
  shows "pixelIndex False c1 \<le> pixelIndex False c2"
    and "pixelIndex True c2 \<le> pixelIndex True c1"
proof -
  have "(29 * channelSum c2) div 196605 \<le> (29 * channelSum c1) div 196605"
    using assms(5) by (intro zdiv_mono1) simp_all
  then show "pixelIndex False c1 \<le> pixelIndex False c2"
    and "pixelIndex True c2 \<le> pixelIndex True c1"
    using assms(3,4) by (simp_all add: pixelIndex_valid[OF assms(1)] pixelIndex_valid[OF assms(2)])
qed

lemma glyphIndex_monotone_unwrapped:
  assumes "valid_Color c1" and "valid_Color c2"
    and "RGBA_a c1 \<noteq> 0" and "RGBA_a c2 \<noteq> 0"
    and "channelSum c2 < channelSum c1"
  shows "pixelIndex False c2 \<noteq> 29 \<Longrightarrow> glyphIndex False c1 \<le> glyphIndex False c2"
    and "pixelIndex True c1 \<noteq> 29 \<Longrightarrow> glyphIndex True c2 \<le> glyphIndex True c1"
proof -
  note m = pixelIndex_monotone[OF assms]
  note r1 = pixelIndex_range[OF assms(1)]
  note r2 = pixelIndex_range[OF assms(2)]
  show "glyphIndex False c1 \<le> glyphIndex False c2" if "pixelIndex False c2 \<noteq> 29"
    using that m(1) r1[of False] r2[of False]
    by (simp add: glyphIndex_valid[OF assms(1)] glyphIndex_valid[OF assms(2)])
  show "glyphIndex True c2 \<le> glyphIndex True c1" if "pixelIndex True c1 \<noteq> 29"
    using that m(2) r1[of True] r2[of True]
    by (simp add: glyphIndex_valid[OF assms(1)] glyphIndex_valid[OF assms(2)])
qed

lemma channelSum_eval:
  "channelSum \<lparr>RGBA_r = r, RGBA_g = g, RGBA_b = b, RGBA_a = a\<rparr> = uint r + uint g + uint b"
  by (simp add: channelSum_def)

lemma glyphIndex_eval:
  assumes "valid_Color c" and "RGBA_a c \<noteq> 0"
  shows "glyphIndex False c = (29 - (29 * channelSum c) div 196605) mod 29"
    and "glyphIndex True c = ((29 * channelSum c) div 196605) mod 29"
  using assms(2) by (simp_all add: glyphIndex_valid[OF assms(1)] pixelIndex_valid[OF assms(1)])

lemma glyph_white:
  "glyph False \<lparr>RGBA_r = 0xFFFF, RGBA_g = 0xFFFF, RGBA_b = 0xFFFF, RGBA_a = 0xFFFF\<rparr> = 209"
proof -
  let ?c = "\<lparr>RGBA_r = 0xFFFF, RGBA_g = 0xFFFF, RGBA_b = 0xFFFF, RGBA_a = 0xFFFF\<rparr>"
  have v: "valid_Color ?c" by (simp add: valid_Color_def)
  have "glyphIndex False ?c = 0"
    by (simp add: glyphIndex_eval(1)[OF v] channelSum_eval)
  then show ?thesis by (simp add: glyph_def ASCIIChars_def)
qed

lemma glyph_black:
  "glyph False \<lparr>RGBA_r = 0, RGBA_g = 0, RGBA_b = 0, RGBA_a = 0xFFFF\<rparr> = 209"
proof -
  let ?c = "\<lparr>RGBA_r = 0, RGBA_g = 0, RGBA_b = 0, RGBA_a = 0xFFFF\<rparr>"
  have v: "valid_Color ?c" by (simp add: valid_Color_def)
  have "glyphIndex False ?c = 0"
    by (simp add: glyphIndex_eval(1)[OF v] channelSum_eval)
  then show ?thesis by (simp add: glyph_def ASCIIChars_def)
qed

lemma ImgToASCII_solid_1x1:
  assumes "valid_Color c"
  shows "ImgToASCII (solid 1 1 c) negative invert = Inr [glyph negative c]"
proof -
  have "valid_Image (solid 1 1 c)" using assms by (rule valid_Image_solid)
  then show ?thesis
    by (simp add: ImgToASCII_valid) (simp add: solid_def)
qed

text \<open>
  C1. Evaluation of \<open>ImgToASCII\<close> on the two images of the claim, without tone reversal:
  the image of one white pixel gives the one-rune string of the glyph at index 0 (U+00D1),
  not the space, and the image of one black pixel gives the same string. For the white
  pixel the quotient is 29 and the index \<open>29 - 29\<close>; for the black pixel the quotient is 0
  and the index 29 is reduced to 0 by the modulo.
\<close>

theorem white_pixel_renders_dense:
  "ImgToASCII (solid 1 1 \<lparr>RGBA_r = 0xFFFF, RGBA_g = 0xFFFF, RGBA_b = 0xFFFF, RGBA_a = 0xFFFF\<rparr>)
     False False = Inr [209] \<and>
   ImgToASCII (solid 1 1 \<lparr>RGBA_r = 0xFFFF, RGBA_g = 0xFFFF, RGBA_b = 0xFFFF, RGBA_a = 0xFFFF\<rparr>)
     False True = Inr [209] \<and>
   ImgToASCII (solid 1 1 \<lparr>RGBA_r = 0, RGBA_g = 0, RGBA_b = 0, RGBA_a = 0xFFFF\<rparr>)
     False False = Inr [209] \<and>
   pixelIndex False \<lparr>RGBA_r = 0xFFFF, RGBA_g = 0xFFFF, RGBA_b = 0xFFFF, RGBA_a = 0xFFFF\<rparr> = 0 \<and>
   pixelIndex False \<lparr>RGBA_r = 0, RGBA_g = 0, RGBA_b = 0, RGBA_a = 0xFFFF\<rparr> = 29 \<and>
   ASCIIChars ! 0 = 209 \<and> ASCIIChars ! 28 = 32"
proof -
  let ?w = "\<lparr>RGBA_r = 0xFFFF, RGBA_g = 0xFFFF, RGBA_b = 0xFFFF, RGBA_a = 0xFFFF\<rparr>"
  let ?b = "\<lparr>RGBA_r = 0, RGBA_g = 0, RGBA_b = 0, RGBA_a = 0xFFFF\<rparr>"
  have vw: "valid_Color ?w" and vb: "valid_Color ?b" by (simp_all add: valid_Color_def)
  have 1: "ImgToASCII (solid 1 1 ?w) False False = Inr [209]"
    and 2: "ImgToASCII (solid 1 1 ?w) False True = Inr [209]"
    by (simp_all only: ImgToASCII_solid_1x1[OF vw] glyph_white)
  have 3: "ImgToASCII (solid 1 1 ?b) False False = Inr [209]"
    by (simp only: ImgToASCII_solid_1x1[OF vb] glyph_black)
  have 4: "pixelIndex False ?w = 0"
    by (simp add: pixelIndex_valid[OF vw] channelSum_eval)
  have 5: "pixelIndex False ?b = 29"
    by (simp add: pixelIndex_valid[OF vb] channelSum_eval)
  have 6: "ASCIIChars ! 0 = 209" and 7: "ASCIIChars ! 28 = 32"
    by (simp_all add: ASCIIChars_def)
  show ?thesis by (intro conjI 1 2 3 4 5 6 7)
qed

text \<open>
  C2. Two pairs of opaque pixels at which the index of the glyph does not follow the
  channel sums. Without tone reversal the pixel of sum 10023 gets index 28 and the black
  pixel, of the smaller sum 0, gets index 0: the quotient 0 gives \<open>29 - 0\<close>, which the modulo
  turns into 0. With tone reversal the white pixel of sum 196605 gets index 0, the
  quotient 29 reduced by the modulo, and the pixel of sum 100230 gets index 14.
\<close>

theorem glyph_index_wraps_at_the_ends:
  "channelSum \<lparr>RGBA_r = 0, RGBA_g = 0, RGBA_b = 0, RGBA_a = 0xFFFF\<rparr>
     < channelSum \<lparr>RGBA_r = 10023, RGBA_g = 0, RGBA_b = 0, RGBA_a = 0xFFFF\<rparr> \<and>
   glyphIndex False \<lparr>RGBA_r = 10023, RGBA_g = 0, RGBA_b = 0, RGBA_a = 0xFFFF\<rparr> = 28 \<and>
   glyphIndex False \<lparr>RGBA_r = 0, RGBA_g = 0, RGBA_b = 0, RGBA_a = 0xFFFF\<rparr> = 0 \<and>
   \<not> glyphIndex False \<lparr>RGBA_r = 10023, RGBA_g = 0, RGBA_b = 0, RGBA_a = 0xFFFF\<rparr>
       \<le> glyphIndex False \<lparr>RGBA_r = 0, RGBA_g = 0, RGBA_b = 0, RGBA_a = 0xFFFF\<rparr> \<and>
   channelSum \<lparr>RGBA_r = 30069, RGBA_g = 30069, RGBA_b = 40092, RGBA_a = 0xFFFF\<rparr>
     < channelSum \<lparr>RGBA_r = 0xFFFF, RGBA_g = 0xFFFF, RGBA_b = 0xFFFF, RGBA_a = 0xFFFF\<rparr> \<and>
   glyphIndex True \<lparr>RGBA_r = 0xFFFF, RGBA_g = 0xFFFF, RGBA_b = 0xFFFF, RGBA_a = 0xFFFF\<rparr> = 0 \<and>
   glyphIndex True \<lparr>RGBA_r = 30069, RGBA_g = 30069, RGBA_b = 40092, RGBA_a = 0xFFFF\<rparr> = 14 \<and>
   \<not> glyphIndex True \<lparr>RGBA_r = 30069, RGBA_g = 30069, RGBA_b = 40092, RGBA_a = 0xFFFF\<rparr>
       \<le> glyphIndex True \<lparr>RGBA_r = 0xFFFF, RGBA_g = 0xFFFF, RGBA_b = 0xFFFF, RGBA_a = 0xFFFF\<rparr>"
proof -
  let ?w = "\<lparr>RGBA_r = 0xFFFF, RGBA_g = 0xFFFF, RGBA_b = 0xFFFF, RGBA_a = 0xFFFF\<rparr>"
  let ?b = "\<lparr>RGBA_r = 0, RGBA_g = 0, RGBA_b = 0, RGBA_a = 0xFFFF\<rparr>"
  let ?d = "\<lparr>RGBA_r = 10023, RGBA_g = 0, RGBA_b = 0, RGBA_a = 0xFFFF\<rparr>"
  let ?m = "\<lparr>RGBA_r = 30069, RGBA_g = 30069, RGBA_b = 40092, RGBA_a = 0xFFFF\<rparr>"
  have vw: "valid_Color ?w" and vb: "valid_Color ?b" and vd: "valid_Color ?d"
    and vm: "valid_Color ?m"
    by (simp_all add: valid_Color_def)
  have 1: "channelSum ?b < channelSum ?d" by (simp add: channelSum_eval)
  have 2: "glyphIndex False ?d = 28" by (simp add: glyphIndex_eval(1)[OF vd] channelSum_eval)
  have 3: "glyphIndex False ?b = 0" by (simp add: glyphIndex_eval(1)[OF vb] channelSum_eval)
  have 4: "\<not> glyphIndex False ?d \<le> glyphIndex False ?b" unfolding 2 3 by simp
  have 5: "channelSum ?m < channelSum ?w" by (simp add: channelSum_eval)
  have 6: "glyphIndex True ?w = 0" by (simp add: glyphIndex_eval(2)[OF vw] channelSum_eval)
  have 7: "glyphIndex True ?m = 14" by (simp add: glyphIndex_eval(2)[OF vm] channelSum_eval)
  have 8: "\<not> glyphIndex True ?m \<le> glyphIndex True ?w" unfolding 6 7 by simp
  show ?thesis by (intro conjI 1 2 3 4 5 6 7 8)
qed

lemma ResetColour_runes: "runes ResetColour = [27, 91, 48, 109]"
  by (simp add: runes_def ResetColour_def)

lemma TrueEsc_black:
  "runes (TrueEsc \<lparr>R = 0, G = 0, B = 0\<rparr>) = [27, 91, 52, 56, 59, 50, 59, 48, 59, 48, 59, 48, 109]"
  by (simp add: runes_def TrueEsc_def fmt_d_def digit_char_def)

lemma FromColor_black:
  "FromColor \<lparr>RGBA_r = 0, RGBA_g = 0, RGBA_b = 0, RGBA_a = 0xFFFF\<rparr> = Some \<lparr>R = 0, G = 0, B = 0\<rparr>"
  by (simp add: FromColor_def)

lemma ImgToPreview_eq:
  "ImgToPreview img single =
     Inr (Join (map (\<lambda>y. Join (map (\<lambda>x. colourEsc (FromColor (At img x y))
                                    @ (if single then runes '' '' else runes ''   ''))
                                 [0..<Max_X img]) (runes ResetColour)) [0..<Max_Y img])
            (runes ResetColour @ [10]))"
  by (simp add: ImgToPreview_def ImgToPreview_matrix_eq comp_def)

text \<open>
  C8. Evaluation of the two coloured conversions on the black image of one column and two
  rows. In the string of \<open>ImgToASCIIColoured\<close> the line feed follows the glyph of the first
  row directly: the rows are joined with the line feed alone, and the only reset sequence
  (ESC, "[0m") is the one appended to the whole string. In the string of \<open>ImgToPreview\<close>
  the reset sequence stands before the line feed, and nothing follows the last row.
\<close>

theorem coloured_rows_joined_without_reset:
  "ImgToASCIIColoured (solid 1 2 \<lparr>RGBA_r = 0, RGBA_g = 0, RGBA_b = 0, RGBA_a = 0xFFFF\<rparr>)
     False False =
     Inr ([27, 91, 52, 56, 59, 50, 59, 48, 59, 48, 59, 48, 109] @ [209] @ [10] @
          [27, 91, 52, 56, 59, 50, 59, 48, 59, 48, 59, 48, 109] @ [209] @ [27, 91, 48, 109]) \<and>
   ImgToPreview (solid 1 2 \<lparr>RGBA_r = 0, RGBA_g = 0, RGBA_b = 0, RGBA_a = 0xFFFF\<rparr>) True =
     Inr ([27, 91, 52, 56, 59, 50, 59, 48, 59, 48, 59, 48, 109] @ [32] @ [27, 91, 48, 109] @ [10] @
          [27, 91, 52, 56, 59, 50, 59, 48, 59, 48, 59, 48, 109] @ [32]) \<and>
   runes ResetColour = [27, 91, 48, 109]"
proof -
  let ?b = "\<lparr>RGBA_r = 0, RGBA_g = 0, RGBA_b = 0, RGBA_a = 0xFFFF\<rparr>"
  have v: "valid_Image (solid 1 2 ?b)"
    by (rule valid_Image_solid) (simp add: valid_Color_def)
  have d: "Max_X (solid 1 2 ?b) = 1" "Max_Y (solid 1 2 ?b) = 2" "At (solid 1 2 ?b) = (\<lambda>x y. ?b)"
    by (simp_all add: solid_def)
  have u: "[0..<2] = [0, Suc 0]" by (simp add: upt_rec)
  have e: "colourEsc (FromColor ?b) = [27, 91, 52, 56, 59, 50, 59, 48, 59, 48, 59, 48, 109]"
    by (simp add: colourEsc_def FromColor_black TrueEsc_black)
  have 1: "ImgToASCIIColoured (solid 1 2 ?b) False False =
     Inr ([27, 91, 52, 56, 59, 50, 59, 48, 59, 48, 59, 48, 109] @ [209] @ [10] @
          [27, 91, 52, 56, 59, 50, 59, 48, 59, 48, 59, 48, 109] @ [209] @ [27, 91, 48, 109])"
    unfolding ImgToASCIIColoured_valid[OF v] d u e glyph_black ResetColour_runes by simp
  have 2: "ImgToPreview (solid 1 2 ?b) True =
     Inr ([27, 91, 52, 56, 59, 50, 59, 48, 59, 48, 59, 48, 109] @ [32] @ [27, 91, 48, 109] @ [10] @
          [27, 91, 52, 56, 59, 50, 59, 48, 59, 48, 59, 48, 109] @ [32])"
    unfolding ImgToPreview_eq d u e ResetColour_runes by (simp add: runes_def)
  show ?thesis by (intro conjI 1 2 ResetColour_runes)
qed

section \<open>Properties of the colour codec\<close>

lemma mask8: "(0xFF :: 64 word) = mask 8"
  by (simp add: mask_eq_exp_minus_1)

lemma packed_fields:
  fixes r g b :: nat
  assumes "r < 256" and "g < 256" and "b < 256"
  defines "val \<equiv> (word_of_nat (r * 65536 + g * 256 + b) :: 64 word)"
  shows "unat (ucast (drop_bit 16 val) :: 8 word) = r"
    and "unat (ucast (drop_bit 8 val AND 0xFF) :: 8 word) = g"
    and "unat (ucast (val AND 0xFF) :: 8 word) = b"
proof -
  have "r * 65536 + g * 256 + b < 2 ^ 64" using assms(1-3) by simp
  moreover have "unat val = (r * 65536 + g * 256 + b) mod 2 ^ 64"
    unfolding val_def by (simp only: unat_of_nat) simp
  ultimately have uv: "unat val = r * 65536 + g * 256 + b"
    by (simp only: mod_less)
  have d16: "(r * 65536 + g * 256 + b) div 65536 = r" using assms(1-3) by simp
  have d8: "(r * 65536 + g * 256 + b) div 256 = r * 256 + g" using assms(1-3) by simp
  have m0: "(r * 65536 + g * 256 + b) mod 256 = b"
  proof -
    have "r * 65536 + g * 256 + b = (r * 256 + g) * 256 + b" by simp
    then show ?thesis using assms(3) by (simp only: mod_mult_self3 mod_less)
  qed
  have u16: "unat (drop_bit 16 val) = r"
    by (simp only: unat_drop_bit_eq uv) (simp add: drop_bit_eq_div d16)
  have u8: "unat (drop_bit 8 val) = r * 256 + g"
    by (simp only: unat_drop_bit_eq uv) (simp add: drop_bit_eq_div d8)
  show "unat (ucast (drop_bit 16 val) :: 8 word) = r"
    using assms(1) by (simp add: unsigned_ucast_eq u16 take_bit_eq_mod)
  show "unat (ucast (drop_bit 8 val AND 0xFF) :: 8 word) = g"
    unfolding mask8 using assms(2)
    by (simp add: unsigned_ucast_eq u8 take_bit_eq_mod unat_mod
          take_bit_eq_mask[symmetric])
  show "unat (ucast (val AND 0xFF) :: 8 word) = b"
    unfolding mask8 using assms(3)
    by (simp add: unsigned_ucast_eq uv take_bit_eq_mod unat_mod
          take_bit_eq_mask[symmetric] m0)
qed

lemma digit_of_digit_char: "d < 16 \<Longrightarrow> digit_of (digit_char d) = Some d"
proof -
  have "\<forall>d \<in> set [0..<16]. digit_of (digit_char d) = Some d"
    by (simp add: upt_rec digit_char_def digit_of_def)
  moreover assume "d < 16"
  ultimately show ?thesis by simp
qed

lemma ParseUint_loop_digits:
  assumes "\<forall>d \<in> set ds. d < 16" and "(n + 1) * 16 ^ length ds \<le> 2 ^ 32"
  shows "ParseUint_loop 16 (2 ^ 32 - 1) n (map digit_char ds) =
           Inr (foldl (\<lambda>a d. a * 16 + d) n ds)"
  using assms
proof (induction ds arbitrary: n)
  case Nil
  then show ?case by simp
next
  case (Cons d ds)
  then have d: "d < 16" by simp
  define K :: nat where "K = 16 ^ length ds"
  have K: "1 \<le> K" by (simp add: K_def)
  have "(n + 1) * 16 ^ length (d # ds) = (n + 1) * 16 * K"
    unfolding K_def by (simp add: algebra_simps)
  with Cons.prems(2) have total: "(n + 1) * 16 * K \<le> 2 ^ 32"
    by (simp only:)
  have "(n + 1) * 16 \<le> (n + 1) * 16 * K"
    using mult_le_mono2[OF K, of "(n + 1) * 16"] by simp
  from this total have "(n + 1) * 16 \<le> 2 ^ 32" by (rule order_trans)
  then have n: "n * 16 + 16 \<le> 2 ^ 32" by simp
  have "n * 16 + d + 1 \<le> (n + 1) * 16" using d by simp
  then have "(n * 16 + d + 1) * K \<le> (n + 1) * 16 * K"
    by (rule mult_le_mono1)
  from this total have next_ok: "(n * 16 + d + 1) * 16 ^ length ds \<le> 2 ^ 32"
    unfolding K_def by (rule order_trans)
  have "ParseUint_loop 16 (2 ^ 32 - 1) (n * 16 + d) (map digit_char ds) =
          Inr (foldl (\<lambda>a d. a * 16 + d) (n * 16 + d) ds)"
    using Cons.prems(1) next_ok by (intro Cons.IH) simp_all
  then show ?case
    using d n by (simp add: digit_of_digit_char)
qed

lemma FromHex_digits:
  "FromHex (fmt_02x (R c) @ fmt_02x (G c) @ fmt_02x (B c)) = Inr c"
proof -
  define r g b where "r = unat (R c)" and "g = unat (G c)" and "b = unat (B c)"
  have bounds: "r < 256" "g < 256" "b < 256"
    using unsigned_less[of "R c"] unsigned_less[of "G c"] unsigned_less[of "B c"]
    by (simp_all add: r_def g_def b_def)
  let ?ds = "[r div 16, r mod 16, g div 16, g mod 16, b div 16, b mod 16]"
  have str: "fmt_02x (R c) @ fmt_02x (G c) @ fmt_02x (B c) = map digit_char ?ds"
    by (simp add: fmt_02x_def r_def g_def b_def)
  have small: "\<forall>d \<in> set ?ds. d < 16" using bounds by auto
  have "ParseUint_loop 16 (2 ^ 32 - 1) 0 (map digit_char ?ds) =
          Inr (foldl (\<lambda>a d. a * 16 + d) 0 ?ds)"
    using small by (intro ParseUint_loop_digits) simp_all
  moreover have "foldl (\<lambda>a d. a * 16 + d) 0 ?ds = r * 65536 + g * 256 + b"
    by simp
  ultimately have "ParseUint (map digit_char ?ds) 16 32 =
                     Inr (word_of_nat (r * 65536 + g * 256 + b))"
    by (simp add: ParseUint_def)
  then have "FromHex (map digit_char ?ds) =
      Inr \<lparr>R = ucast (drop_bit 16 (word_of_nat (r * 65536 + g * 256 + b) :: 64 word)),
           G = ucast (drop_bit 8 (word_of_nat (r * 65536 + g * 256 + b) :: 64 word) AND 0xFF),
           B = ucast ((word_of_nat (r * 65536 + g * 256 + b) :: 64 word) AND 0xFF)\<rparr>"
    by (simp add: FromHex_def)
  moreover have "ucast (drop_bit 16 (word_of_nat (r * 65536 + g * 256 + b) :: 64 word)) = R c"
    using packed_fields(1)[OF bounds] by (simp add: word_unat_eq_iff r_def)
  moreover have "ucast (drop_bit 8 (word_of_nat (r * 65536 + g * 256 + b) :: 64 word) AND 0xFF) = G c"
    using packed_fields(2)[OF bounds] by (simp add: word_unat_eq_iff g_def)
  moreover have "ucast ((word_of_nat (r * 65536 + g * 256 + b) :: 64 word) AND 0xFF) = B c"
    using packed_fields(3)[OF bounds] by (simp add: word_unat_eq_iff b_def)
  ultimately show ?thesis
    unfolding str by simp
qed

lemma Hex_without_prefix: "FromHex (drop 2 (Hex c)) = Inr c"
  by (simp add: Hex_def FromHex_digits)

text \<open>
  C4. \<open>FromHex\<close> returns the syntax error of \<open>strconv.ParseUint\<close> for the string of \<open>Hex\<close>
  of every colour: the string starts with "0x", and with base 16 the byte \<open>x\<close> is not a
  digit. No colour makes the round trip.
\<close>

theorem FromHex_rejects_Hex: "FromHex (Hex c) = Inl ErrSyntax"
  by (simp add: FromHex_def ParseUint_def Hex_def digit_of_def)

section \<open>Properties of the resampler\<close>

lemma window_hf: "f64_div 110 1880 = 1054033955342031 / 18014398509481984"
proof -
  have e: "f64_expo (110 / 1880) = - 5"
    by (rule f64_expo_eqI) (simp_all add: power_int_minus)
  have "round_half_even (110 / 1880 / 2 powi (- 5 - 52)) = 8432271642736248"
    by (simp add: round_half_even_def power_int_minus Let_def)
  with e have "f64_round (110 / 1880) = of_int 8432271642736248 * 2 powi (- 5 - 52)"
    by (rule f64_round_eval)
  then show ?thesis by (simp add: f64_div_def power_int_minus)
qed

lemma window_wf: "f64_div 400 2816 = 5117726849284655 / 36028797018963968"
proof -
  have e: "f64_expo (400 / 2816) = - 3"
    by (rule f64_expo_eqI) (simp_all add: power_int_minus)
  have "round_half_even (400 / 2816 / 2 powi (- 3 - 52)) = 5117726849284655"
    by (simp add: round_half_even_def power_int_minus Let_def)
  with e have "f64_round (400 / 2816) = of_int 5117726849284655 * 2 powi (- 3 - 52)"
    by (rule f64_round_eval)
  then show ?thesis by (simp add: f64_div_def power_int_minus)
qed

lemma window_x:
  "f64_mul 2816 (1054033955342031 / 18014398509481984) = 2898593377190585 / 17592186044416"
proof -
  have e: "f64_expo (2816 * (1054033955342031 / 18014398509481984)) = 7"
    by (rule f64_expo_eqI) simp_all
  have "round_half_even (2816 * (1054033955342031 / 18014398509481984) / 2 powi (7 - 52))
          = 5797186754381170"
    by (simp add: round_half_even_def power_int_minus Let_def)
  with e have "f64_round (2816 * (1054033955342031 / 18014398509481984))
                 = of_int 5797186754381170 * 2 powi (7 - 52)"
    by (rule f64_round_eval)
  then show ?thesis by (simp add: f64_mul_def power_int_minus)
qed

lemma window_y: "f64_mul 1880 (1054033955342031 / 18014398509481984) = 110"
proof -
  have e: "f64_expo (1880 * (1054033955342031 / 18014398509481984)) = 6"
    by (rule f64_expo_eqI) simp_all
  have "round_half_even (1880 * (1054033955342031 / 18014398509481984) / 2 powi (6 - 52))
          = 7740561859543040"
    by (simp add: round_half_even_def power_int_minus Let_def)
  with e have "f64_round (1880 * (1054033955342031 / 18014398509481984))
                 = of_int 7740561859543040 * 2 powi (6 - 52)"
    by (rule f64_round_eval)
  then show ?thesis by (simp add: f64_mul_def power_int_minus)
qed

lemma window_opts:
  "FileToWindow_opts (solid 2816 1880 c) \<lparr>Width = 400, Height = 110, Factor = 1, Mode = m\<rparr>
     = \<lparr>Width = 0, Height = 0, Factor = 1054033955342031 / 18014398509481984, Mode = m\<rparr>"
proof -
  have conv: "f64_of_int 110 = 110" "f64_of_int 1880 = 1880" "f64_of_int 400 = 400"
    "f64_of_int 2816 = 2816"
    by (simp_all add: f64_of_int_exact)
  have cmp: "(110 :: 64 word) < word_of_nat 1880" "(400 :: 64 word) < word_of_nat 2816"
    by (simp_all add: word_less_def)
  show ?thesis
    by (simp add: FileToWindow_opts_def solid_def conv cmp window_hf window_wf Let_def)
qed

lemma window_size:
  "getScaledXY \<lparr>Width = 0, Height = 0, Factor = 1054033955342031 / 18014398509481984, Mode = m\<rparr>
     (solid 2816 1880 c) = Some (165, 110)"
proof -
  have conv: "f64_of_int 1880 = 1880" "f64_of_int 2816 = 2816"
    by (simp_all add: f64_of_int_exact)
  show ?thesis
    by (simp add: getScaledXY_def solid_def conv window_x window_y go_Round_def int_of_f64_def
          f64_trunc_def Let_def)
qed

text \<open>
  C5. For a source of 2816 by 1880 pixels and the options width 400, height 110 and
  factor 1.0, \<open>FileToWindow\<close> hands to \<open>scale.Image\<close> the options with width and height
  cleared and with the factor \<open>float64(110) / float64(1880)\<close>, about 0.0585, which is the
  smaller of the two quotients \<open>400 / 2816\<close> and \<open>110 / 1880\<close> and is not above 1.0; the
  scaled image is allocated with the bounds from (0, 0) to (165, 110).
\<close>

theorem fit_to_window_example:
  "FileToWindow_opts (solid 2816 1880 c) \<lparr>Width = 400, Height = 110, Factor = 1, Mode = m\<rparr>
     = \<lparr>Width = 0, Height = 0, Factor = f64_div 110 1880, Mode = m\<rparr> \<and>
   f64_div 110 1880 = min (f64_div 400 2816) (f64_div 110 1880) \<and>
   f64_div 110 1880 = 1054033955342031 / 18014398509481984 \<and>
   585 / 10000 < f64_div 110 1880 \<and> f64_div 110 1880 < 586 / 10000 \<and>
   f64_div 110 1880 \<le> 1 \<and>
   getScaledXY (FileToWindow_opts (solid 2816 1880 c)
                  \<lparr>Width = 400, Height = 110, Factor = 1, Mode = m\<rparr>)
     (solid 2816 1880 c) = Some (165, 110) \<and>
   FileToWindow (solid 2816 1880 c) \<lparr>Width = 400, Height = 110, Factor = 1, Mode = m\<rparr>
     = Some (Rect 0 0 165 110) \<and>
   Dx (Rect 0 0 165 110) = 165 \<and> Dy (Rect 0 0 165 110) = 110"
proof -
  have 1: "FileToWindow_opts (solid 2816 1880 c)
             \<lparr>Width = 400, Height = 110, Factor = 1, Mode = m\<rparr>
           = \<lparr>Width = 0, Height = 0, Factor = f64_div 110 1880, Mode = m\<rparr>"
    by (simp only: window_opts window_hf)
  have 2: "f64_div 110 1880 = min (f64_div 400 2816) (f64_div 110 1880)"
    by (simp add: window_hf window_wf)
  have 3: "f64_div 110 1880 = 1054033955342031 / 18014398509481984"
    by (rule window_hf)
  have 4: "585 / 10000 < f64_div 110 1880" and 5: "f64_div 110 1880 < 586 / 10000"
    and 6: "f64_div 110 1880 \<le> 1"
    by (simp_all add: window_hf)
  have 7: "getScaledXY (FileToWindow_opts (solid 2816 1880 c)
                  \<lparr>Width = 400, Height = 110, Factor = 1, Mode = m\<rparr>)
             (solid 2816 1880 c) = Some (165, 110)"
    by (simp only: window_opts window_size)
  have 8: "FileToWindow (solid 2816 1880 c) \<lparr>Width = 400, Height = 110, Factor = 1, Mode = m\<rparr>
             = Some (Rect 0 0 165 110)"
    by (simp add: FileToWindow_def Image_bounds_def 7)
  have 9: "Dx (Rect 0 0 165 110) = 165" and 10: "Dy (Rect 0 0 165 110) = 110"
    by (simp_all add: Dx_def Dy_def Rect_def)
  show ?thesis by (intro conjI 1 2 3 4 5 6 7 8 9 10)
qed

lemma sint_small:
  fixes w :: "64 word"
  assumes "w < 2 ^ 63"
  shows "sint w = uint w"
proof -
  from assms have "uint w < 2 ^ 63" by (simp add: word_less_def)
  moreover have "- (2 ^ 63) \<le> uint w"
    by (rule order_trans[of _ 0]) simp_all
  ultimately have "signed_take_bit 63 (uint w) = uint w"
    by (rule signed_take_bit_int_eq_self[rotated])
  then show ?thesis by (simp add: sint_uint)
qed

lemma go_Round_nearest:
  shows "\<bar>go_Round p - p\<bar> \<le> 1 / 2"
    and "\<bar>go_Round p - p\<bar> = 1 / 2 \<Longrightarrow> \<bar>p\<bar> < \<bar>go_Round p\<bar>"
proof -
  have up: "of_int \<lfloor>p + 1 / 2\<rfloor> \<le> p + 1 / 2" "p + 1 / 2 < of_int \<lfloor>p + 1 / 2\<rfloor> + 1"
    by linarith+
  have dn: "of_int \<lfloor>- p + 1 / 2\<rfloor> \<le> - p + 1 / 2" "- p + 1 / 2 < of_int \<lfloor>- p + 1 / 2\<rfloor> + 1"
    by linarith+
  show "\<bar>go_Round p - p\<bar> \<le> 1 / 2"
  proof (cases "p < 0")
    case True
    then have "go_Round p = - of_int \<lfloor>- p + 1 / 2\<rfloor>" by (simp add: go_Round_def)
    with dn show ?thesis by linarith
  next
    case False
    then have "go_Round p = of_int \<lfloor>p + 1 / 2\<rfloor>" by (simp add: go_Round_def)
    with up show ?thesis by linarith
  qed
  show "\<bar>p\<bar> < \<bar>go_Round p\<bar>" if h: "\<bar>go_Round p - p\<bar> = 1 / 2"
  proof (cases "p < 0")
    case True
    then have "go_Round p = - of_int \<lfloor>- p + 1 / 2\<rfloor>" by (simp add: go_Round_def)
    with dn h True show ?thesis by linarith
  next
    case False
    then have "go_Round p = of_int \<lfloor>p + 1 / 2\<rfloor>" by (simp add: go_Round_def)
    with up h False show ?thesis by linarith
  qed
qed

lemma go_Round_integral: "of_int (f64_trunc (go_Round p)) = go_Round p"
  unfolding go_Round_def f64_trunc_def by (auto simp: not_less)

lemma int_of_f64_Round:
  assumes "- (2 ^ 63) \<le> go_Round p" and "go_Round p < 2 ^ 63"
  shows "int_of_f64 (go_Round p) = Some (f64_trunc (go_Round p))"
proof -
  have "real_of_int (- (2 ^ 63)) \<le> of_int (f64_trunc (go_Round p))"
    and "real_of_int (f64_trunc (go_Round p)) < of_int (2 ^ 63)"
    using assms by (simp_all add: go_Round_integral)
  then have "- (2 ^ 63) \<le> f64_trunc (go_Round p)" and "f64_trunc (go_Round p) < 2 ^ 63"
    by (simp_all only: of_int_le_iff of_int_less_iff)
  then show ?thesis by (simp add: int_of_f64_def)
qed

lemma go_Round_of_int: "go_Round (of_int n) = of_int n"
proof (cases "n < 0")
  case True
  have "\<lfloor>- real_of_int n + 1 / 2\<rfloor> = - n" by (rule floor_unique) simp_all
  with True show ?thesis by (simp add: go_Round_def)
next
  case False
  have "\<lfloor>real_of_int n + 1 / 2\<rfloor> = n" by (rule floor_unique) simp_all
  with False show ?thesis by (simp add: go_Round_def)
qed

lemma f64_round_pow53: "f64_round 9007199254740992 = 9007199254740992"
proof -
  have e: "f64_expo 9007199254740992 = 53" by (rule f64_expo_eqI) simp_all
  have "round_half_even (9007199254740992 / 2 powi (53 - 52)) = 4503599627370496"
    by (simp add: round_half_even_def Let_def)
  with e have "f64_round 9007199254740992 = of_int 4503599627370496 * 2 powi (53 - 52)"
    by (rule f64_round_eval)
  then show ?thesis by simp
qed

lemma f64_round_past_pow53: "f64_round 9007199254740993 = 9007199254740992"
proof -
  have e: "f64_expo 9007199254740993 = 53" by (rule f64_expo_eqI) simp_all
  have "round_half_even (9007199254740993 / 2 powi (53 - 52)) = 4503599627370496"
    by (simp add: round_half_even_def Let_def)
  with e have "f64_round 9007199254740993 = of_int 4503599627370496 * 2 powi (53 - 52)"
    by (rule f64_round_eval)
  then show ?thesis by simp
qed

lemma f64_round_of_nat:
  assumes "n \<le> 2 ^ 53"
  shows "f64_round (of_int (int n)) = of_int (int n)"
proof (cases "n = 2 ^ 53")
  case True
  then show ?thesis by (simp add: f64_round_pow53)
next
  case False
  with assms have "\<bar>int n\<bar> < 2 ^ 53" by simp
  then show ?thesis by (rule f64_round_of_int)
qed

lemma scale_by_one:
  assumes "n \<le> 2 ^ 53"
  shows "int_of_f64 (go_Round (f64_mul (f64_of_int (int n)) 1)) = Some (int n)"
proof -
  note fx = f64_round_of_nat[OF assms]
  have "f64_mul (f64_of_int (int n)) 1 = f64_round (f64_round (of_int (int n)))"
    by (simp add: f64_mul_def f64_of_int_def)
  then have "f64_mul (f64_of_int (int n)) 1 = of_int (int n)"
    by (simp only: fx)
  then have r: "go_Round (f64_mul (f64_of_int (int n)) 1) = of_int (int n)"
    by (simp only: go_Round_of_int)
  from assms have "int n \<le> int (2 ^ 53)" by (simp only: of_nat_le_iff)
  then have "int n < 2 ^ 63" by simp
  then show ?thesis
    unfolding r int_of_f64_def f64_trunc_def by simp
qed

text \<open>
  C6, as amended. With the factor 0, \<open>getScaledXY\<close> returns the explicit width and height
  whenever both are below \<open>2 ^ 63\<close>, the values that the conversion \<open>int(opts.Width)\<close> of
  the uint keeps. With another factor it returns for each dimension the integer nearest to
  the float64 product of the source dimension with the factor, a half rounded away from
  zero, whenever the two rounded products fit the int. With the factor 1.0 and source
  dimensions up to \<open>2 ^ 53\<close>, which float64 represents exactly, it returns the source
  dimensions.
\<close>

theorem target_size_resolution:
  "(\<forall>(opts :: ScaleOpts) (src :: Image).
      Factor opts = 0 \<and> Width opts < 2 ^ 63 \<and> Height opts < 2 ^ 63 \<longrightarrow>
      getScaledXY opts src = Some (uint (Width opts), uint (Height opts))) \<and>
   (\<forall>(opts :: ScaleOpts) (src :: Image).
      Factor opts \<noteq> 0 \<and>
      - (2 ^ 63) \<le> go_Round (f64_mul (f64_of_int (int (Max_X src))) (Factor opts)) \<and>
      go_Round (f64_mul (f64_of_int (int (Max_X src))) (Factor opts)) < 2 ^ 63 \<and>
      - (2 ^ 63) \<le> go_Round (f64_mul (f64_of_int (int (Max_Y src))) (Factor opts)) \<and>
      go_Round (f64_mul (f64_of_int (int (Max_Y src))) (Factor opts)) < 2 ^ 63 \<longrightarrow>
      (\<exists>x y. getScaledXY opts src = Some (x, y) \<and>
         of_int x = go_Round (f64_mul (f64_of_int (int (Max_X src))) (Factor opts)) \<and>
         of_int y = go_Round (f64_mul (f64_of_int (int (Max_Y src))) (Factor opts)) \<and>
         \<bar>of_int x - f64_mul (f64_of_int (int (Max_X src))) (Factor opts)\<bar> \<le> 1 / 2 \<and>
         \<bar>of_int y - f64_mul (f64_of_int (int (Max_Y src))) (Factor opts)\<bar> \<le> 1 / 2 \<and>
         (\<bar>of_int x - f64_mul (f64_of_int (int (Max_X src))) (Factor opts)\<bar> = 1 / 2 \<longrightarrow>
            \<bar>f64_mul (f64_of_int (int (Max_X src))) (Factor opts)\<bar> < \<bar>of_int x\<bar>) \<and>
         (\<bar>of_int y - f64_mul (f64_of_int (int (Max_Y src))) (Factor opts)\<bar> = 1 / 2 \<longrightarrow>
            \<bar>f64_mul (f64_of_int (int (Max_Y src))) (Factor opts)\<bar> < \<bar>of_int y\<bar>))) \<and>
   (\<forall>(opts :: ScaleOpts) (src :: Image).
      Factor opts = 1 \<and> Max_X src \<le> 2 ^ 53 \<and> Max_Y src \<le> 2 ^ 53 \<longrightarrow>
      getScaledXY opts src = Some (int (Max_X src), int (Max_Y src)))"
proof (intro conjI allI impI)
  fix opts :: ScaleOpts and src :: Image
  assume "Factor opts = 0 \<and> Width opts < 2 ^ 63 \<and> Height opts < 2 ^ 63"
  then show "getScaledXY opts src = Some (uint (Width opts), uint (Height opts))"
    by (simp add: getScaledXY_def sint_small)
next
  fix opts :: ScaleOpts and src :: Image
  let ?px = "f64_mul (f64_of_int (int (Max_X src))) (Factor opts)"
  let ?py = "f64_mul (f64_of_int (int (Max_Y src))) (Factor opts)"
  assume h: "Factor opts \<noteq> 0 \<and>
      - (2 ^ 63) \<le> go_Round ?px \<and> go_Round ?px < 2 ^ 63 \<and>
      - (2 ^ 63) \<le> go_Round ?py \<and> go_Round ?py < 2 ^ 63"
  then have x: "int_of_f64 (go_Round ?px) = Some (f64_trunc (go_Round ?px))"
    and y: "int_of_f64 (go_Round ?py) = Some (f64_trunc (go_Round ?py))"
    by (simp_all add: int_of_f64_Round)
  from h x y have res: "getScaledXY opts src =
      Some (f64_trunc (go_Round ?px), f64_trunc (go_Round ?py))"
    by (simp add: getScaledXY_def Let_def)
  have ix: "of_int (f64_trunc (go_Round ?px)) = go_Round ?px"
    and iy: "of_int (f64_trunc (go_Round ?py)) = go_Round ?py"
    by (rule go_Round_integral)+
  show "\<exists>x y. getScaledXY opts src = Some (x, y) \<and>
         of_int x = go_Round ?px \<and> of_int y = go_Round ?py \<and>
         \<bar>of_int x - ?px\<bar> \<le> 1 / 2 \<and> \<bar>of_int y - ?py\<bar> \<le> 1 / 2 \<and>
         (\<bar>of_int x - ?px\<bar> = 1 / 2 \<longrightarrow> \<bar>?px\<bar> < \<bar>of_int x\<bar>) \<and>
         (\<bar>of_int y - ?py\<bar> = 1 / 2 \<longrightarrow> \<bar>?py\<bar> < \<bar>of_int y\<bar>)"
  proof (intro exI conjI impI)
    show "getScaledXY opts src = Some (f64_trunc (go_Round ?px), f64_trunc (go_Round ?py))"
      by (rule res)
    show "of_int (f64_trunc (go_Round ?px)) = go_Round ?px" by (rule ix)
    show "of_int (f64_trunc (go_Round ?py)) = go_Round ?py" by (rule iy)
    show "\<bar>of_int (f64_trunc (go_Round ?px)) - ?px\<bar> \<le> 1 / 2"
      unfolding ix by (rule go_Round_nearest(1))
    show "\<bar>of_int (f64_trunc (go_Round ?py)) - ?py\<bar> \<le> 1 / 2"
      unfolding iy by (rule go_Round_nearest(1))
    show "\<bar>?px\<bar> < \<bar>of_int (f64_trunc (go_Round ?px))\<bar>"
      if "\<bar>of_int (f64_trunc (go_Round ?px)) - ?px\<bar> = 1 / 2"
      using that unfolding ix by (rule go_Round_nearest(2))
    show "\<bar>?py\<bar> < \<bar>of_int (f64_trunc (go_Round ?py))\<bar>"
      if "\<bar>of_int (f64_trunc (go_Round ?py)) - ?py\<bar> = 1 / 2"
      using that unfolding iy by (rule go_Round_nearest(2))
  qed
next
  fix opts :: ScaleOpts and src :: Image
  assume "Factor opts = 1 \<and> Max_X src \<le> 2 ^ 53 \<and> Max_Y src \<le> 2 ^ 53"
  then show "getScaledXY opts src = Some (int (Max_X src), int (Max_Y src))"
    by (simp add: getScaledXY_def scale_by_one Let_def)
qed

theorem target_size_resolution_witness:
  "Factor \<lparr>Width = 200, Height = 180, Factor = 0, Mode = NearestNeighbourScaling\<rparr> = 0 \<and>
   Width \<lparr>Width = 200, Height = 180, Factor = 0, Mode = NearestNeighbourScaling\<rparr> < 2 ^ 63 \<and>
   Height \<lparr>Width = 200, Height = 180, Factor = 0, Mode = NearestNeighbourScaling\<rparr> < 2 ^ 63 \<and>
   getScaledXY \<lparr>Width = 200, Height = 180, Factor = 0, Mode = NearestNeighbourScaling\<rparr>
     (solid 640 480 \<lparr>RGBA_r = 0, RGBA_g = 0, RGBA_b = 0, RGBA_a = 0xFFFF\<rparr>) = Some (200, 180) \<and>
   Factor \<lparr>Width = 0, Height = 0, Factor = 1 / 2, Mode = NearestNeighbourScaling\<rparr> \<noteq> 0 \<and>
   go_Round (f64_mul (f64_of_int (int (Max_X
        (solid 3 5 \<lparr>RGBA_r = 0, RGBA_g = 0, RGBA_b = 0, RGBA_a = 0xFFFF\<rparr>))))
      (Factor \<lparr>Width = 0, Height = 0, Factor = 1 / 2, Mode = NearestNeighbourScaling\<rparr>)) = 2 \<and>
   go_Round (f64_mul (f64_of_int (int (Max_Y
        (solid 3 5 \<lparr>RGBA_r = 0, RGBA_g = 0, RGBA_b = 0, RGBA_a = 0xFFFF\<rparr>))))
      (Factor \<lparr>Width = 0, Height = 0, Factor = 1 / 2, Mode = NearestNeighbourScaling\<rparr>)) = 3 \<and>
   getScaledXY \<lparr>Width = 0, Height = 0, Factor = 1 / 2, Mode = NearestNeighbourScaling\<rparr>
     (solid 3 5 \<lparr>RGBA_r = 0, RGBA_g = 0, RGBA_b = 0, RGBA_a = 0xFFFF\<rparr>) = Some (2, 3) \<and>
   Factor \<lparr>Width = 0, Height = 0, Factor = 1, Mode = NearestNeighbourScaling\<rparr> = 1 \<and>
   Max_X (solid 640 480 \<lparr>RGBA_r = 0, RGBA_g = 0, RGBA_b = 0, RGBA_a = 0xFFFF\<rparr>) \<le> 2 ^ 53 \<and>
   Max_Y (solid 640 480 \<lparr>RGBA_r = 0, RGBA_g = 0, RGBA_b = 0, RGBA_a = 0xFFFF\<rparr>) \<le> 2 ^ 53 \<and>
   getScaledXY \<lparr>Width = 0, Height = 0, Factor = 1, Mode = NearestNeighbourScaling\<rparr>
     (solid 640 480 \<lparr>RGBA_r = 0, RGBA_g = 0, RGBA_b = 0, RGBA_a = 0xFFFF\<rparr>) = Some (640, 480)"
proof -
  let ?b = "\<lparr>RGBA_r = 0, RGBA_g = 0, RGBA_b = 0, RGBA_a = 0xFFFF\<rparr>"
  let ?o1 = "\<lparr>Width = 200, Height = 180, Factor = 0, Mode = NearestNeighbourScaling\<rparr>"
  let ?o2 = "\<lparr>Width = 0, Height = 0, Factor = 1 / 2, Mode = NearestNeighbourScaling\<rparr>"
  let ?o3 = "\<lparr>Width = 0, Height = 0, Factor = 1, Mode = NearestNeighbourScaling\<rparr>"
  have px: "f64_mul (f64_of_int (int (Max_X (solid 3 5 ?b)))) (Factor ?o2) = 3 / 2"
  proof -
    have e: "f64_expo (3 / 2) = 0" by (rule f64_expo_eqI) simp_all
    have "round_half_even (3 / 2 / 2 powi (0 - 52)) = 6755399441055744"
      by (simp add: round_half_even_def power_int_minus Let_def)
    with e have "f64_round (3 / 2) = of_int 6755399441055744 * 2 powi (0 - 52)"
      by (rule f64_round_eval)
    then show ?thesis
      by (simp add: f64_mul_def solid_def f64_of_int_exact power_int_minus)
  qed
  have py: "f64_mul (f64_of_int (int (Max_Y (solid 3 5 ?b)))) (Factor ?o2) = 5 / 2"
  proof -
    have e: "f64_expo (5 / 2) = 1" by (rule f64_expo_eqI) simp_all
    have "round_half_even (5 / 2 / 2 powi (1 - 52)) = 5629499534213120"
      by (simp add: round_half_even_def power_int_minus Let_def)
    with e have "f64_round (5 / 2) = of_int 5629499534213120 * 2 powi (1 - 52)"
      by (rule f64_round_eval)
    then show ?thesis
      by (simp add: f64_mul_def solid_def f64_of_int_exact power_int_minus)
  qed
  have h1: "Factor ?o1 = 0 \<and> Width ?o1 < 2 ^ 63 \<and> Height ?o1 < 2 ^ 63"
    by (simp add: word_less_def)
  have rx: "go_Round (f64_mul (f64_of_int (int (Max_X (solid 3 5 ?b)))) (Factor ?o2)) = 2"
    and ry: "go_Round (f64_mul (f64_of_int (int (Max_Y (solid 3 5 ?b)))) (Factor ?o2)) = 3"
    unfolding px py by (simp_all add: go_Round_def)
  have h2: "Factor ?o2 \<noteq> 0 \<and>
      - (2 ^ 63) \<le> go_Round (f64_mul (f64_of_int (int (Max_X (solid 3 5 ?b)))) (Factor ?o2)) \<and>
      go_Round (f64_mul (f64_of_int (int (Max_X (solid 3 5 ?b)))) (Factor ?o2)) < 2 ^ 63 \<and>
      - (2 ^ 63) \<le> go_Round (f64_mul (f64_of_int (int (Max_Y (solid 3 5 ?b)))) (Factor ?o2)) \<and>
      go_Round (f64_mul (f64_of_int (int (Max_Y (solid 3 5 ?b)))) (Factor ?o2)) < 2 ^ 63"
    unfolding rx ry by simp
  have h3: "Factor ?o3 = 1 \<and> Max_X (solid 640 480 ?b) \<le> 2 ^ 53 \<and>
      Max_Y (solid 640 480 ?b) \<le> 2 ^ 53"
    by (simp add: solid_def)
  note a = target_size_resolution[THEN conjunct1, rule_format, OF h1, of "solid 640 480 ?b"]
  note b = target_size_resolution[THEN conjunct2, THEN conjunct1, rule_format, OF h2]
  note c = target_size_resolution[THEN conjunct2, THEN conjunct2, rule_format, OF h3]
  from a have c1: "getScaledXY ?o1 (solid 640 480 ?b) = Some (200, 180)" by simp
  from b obtain x y where xy: "getScaledXY ?o2 (solid 3 5 ?b) = Some (x, y)"
    "real_of_int x = real_of_int 2" "real_of_int y = real_of_int 3"
    unfolding rx ry by auto
  from xy(2,3) have "x = 2" "y = 3" by (simp_all only: of_int_eq_iff)
  with xy(1) have c2: "getScaledXY ?o2 (solid 3 5 ?b) = Some (2, 3)" by simp
  from c have c3: "getScaledXY ?o3 (solid 640 480 ?b) = Some (640, 480)"
    by (simp add: solid_def)
  from h1 have h1a: "Factor ?o1 = 0" and h1b: "Width ?o1 < 2 ^ 63" and h1c: "Height ?o1 < 2 ^ 63"
    by blast+
  from h2 have h2a: "Factor ?o2 \<noteq> 0" by blast
  from h3 have h3a: "Factor ?o3 = 1" and h3b: "Max_X (solid 640 480 ?b) \<le> 2 ^ 53"
    and h3c: "Max_Y (solid 640 480 ?b) \<le> 2 ^ 53"
    by blast+
  show ?thesis by (intro conjI h1a h1b h1c c1 h2a rx ry c2 h3a h3b h3c c3)
qed

text \<open>
  C6, as stated, at the width \<open>2 ^ 63\<close> and the height 1 with the factor 0: the conversion
  to int gives the width \<open>- 2 ^ 63\<close>, not the explicit width. And at the factor 1.0 with a
  source of width \<open>2 ^ 53 + 1\<close>: float64 has no such value, and the result is \<open>2 ^ 53\<close>.
\<close>

theorem explicit_width_beyond_int:
  "Factor \<lparr>Width = 0x8000000000000000, Height = 1, Factor = 0, Mode = NearestNeighbourScaling\<rparr> = 0 \<and>
   0 < Width \<lparr>Width = 0x8000000000000000, Height = 1, Factor = 0, Mode = NearestNeighbourScaling\<rparr> \<and>
   0 < Height \<lparr>Width = 0x8000000000000000, Height = 1, Factor = 0, Mode = NearestNeighbourScaling\<rparr> \<and>
   uint (0x8000000000000000 :: 64 word) = 9223372036854775808 \<and>
   getScaledXY \<lparr>Width = 0x8000000000000000, Height = 1, Factor = 0, Mode = NearestNeighbourScaling\<rparr>
     (solid 640 480 \<lparr>RGBA_r = 0, RGBA_g = 0, RGBA_b = 0, RGBA_a = 0xFFFF\<rparr>)
     = Some (- 9223372036854775808, 1) \<and>
   getScaledXY \<lparr>Width = 0x8000000000000000, Height = 1, Factor = 0, Mode = NearestNeighbourScaling\<rparr>
     (solid 640 480 \<lparr>RGBA_r = 0, RGBA_g = 0, RGBA_b = 0, RGBA_a = 0xFFFF\<rparr>)
     \<noteq> Some (9223372036854775808, 1) \<and>
   getScaledXY \<lparr>Width = 0, Height = 0, Factor = 1, Mode = NearestNeighbourScaling\<rparr>
     (solid 9007199254740993 2 \<lparr>RGBA_r = 0, RGBA_g = 0, RGBA_b = 0, RGBA_a = 0xFFFF\<rparr>)
     = Some (9007199254740992, 2)"
proof -
  let ?b = "\<lparr>RGBA_r = 0, RGBA_g = 0, RGBA_b = 0, RGBA_a = 0xFFFF\<rparr>"
  let ?o = "\<lparr>Width = 0x8000000000000000, Height = 1, Factor = 0, Mode = NearestNeighbourScaling\<rparr>"
  have 1: "Factor ?o = 0" and 2: "0 < Width ?o" and 3: "0 < Height ?o"
    by (simp_all add: word_less_def)
  have 4: "uint (0x8000000000000000 :: 64 word) = 9223372036854775808" by simp
  have 5: "getScaledXY ?o (solid 640 480 ?b) = Some (- 9223372036854775808, 1)"
    by (simp add: getScaledXY_def)
  then have 6: "getScaledXY ?o (solid 640 480 ?b) \<noteq> Some (9223372036854775808, 1)"
    by simp
  have x: "f64_mul (f64_of_int 9007199254740993) 1 = 9007199254740992"
    by (simp add: f64_mul_def f64_of_int_def f64_round_past_pow53 f64_round_pow53)
  have two: "f64_round 2 = 2"
    using f64_round_of_int[of 2] by simp
  have y: "f64_mul (f64_of_int 2) 1 = 2"
    by (simp add: f64_mul_def f64_of_int_def two)
  have 7: "getScaledXY \<lparr>Width = 0, Height = 0, Factor = 1, Mode = NearestNeighbourScaling\<rparr>
     (solid 9007199254740993 2 ?b) = Some (9007199254740992, 2)"
    by (simp add: getScaledXY_def solid_def x y go_Round_def int_of_f64_def f64_trunc_def Let_def)
  show ?thesis by (intro conjI 1 2 3 4 5 6 7)
qed

end
